theory Spec2Isabelle
  imports Complex_Main "HOL-Library.Word"
begin

section \<open>The C arithmetic types used by \<^verbatim>\<open>pascal_lib.c\<close>\<close>

text \<open>
  The library is a handful of one-line wrappers around the C standard library, so what
  its functions compute is decided by the semantics of the C operations they are written
  with: \<^verbatim>\<open>double\<close> addition, the comparison \<^verbatim>\<open>x >= 0.0\<close>, the implicit conversions
  between \<^verbatim>\<open>float\<close>, \<^verbatim>\<open>double\<close> and \<^verbatim>\<open>int\<close>, and the \<^verbatim>\<open>printf\<close> conversions
  \<^verbatim>\<open>%s\<close>, \<^verbatim>\<open>%d\<close> and \<^verbatim>\<open>%g\<close>.  This section fixes the model of those operations:
  \<^verbatim>\<open>int\<close> is a 32-bit two's complement word, \<^verbatim>\<open>float\<close> and \<^verbatim>\<open>double\<close> are the IEEE 754
  formats binary32 and binary64, every floating-point operation is evaluated in the
  precision of its type and rounds to nearest, ties to even.
\<close>

type_synonym c_int = "32 word"

text \<open>
  A floating-point datum is a sign with a non-negative rational magnitude, an infinity
  or a NaN with its sign bit.  The sign is kept apart from the magnitude so that \<open>-0.0\<close>
  is a value of its own.  Which magnitudes a format holds is said by \<open>is_fp\<close> below.
\<close>

datatype fpval = Finite bool rat | Infinite bool | NaN bool

type_synonym float = fpval
type_synonym double = fpval

record fp_format =
  precision :: nat
  emax :: int

definition binary32 :: fp_format where
  "binary32 = \<lparr>precision = 24, emax = 127\<rparr>"

definition binary64 :: fp_format where
  "binary64 = \<lparr>precision = 53, emax = 1023\<rparr>"

text \<open>
  \<open>digit_count b n\<close> is the number of digits of the positive integer \<open>n\<close> in base
  \<open>b\<close>, and \<open>ilog b q\<close> the integer \<open>e\<close> with \<open>b ^ e \<le> q < b ^ (e + 1)\<close> for a
  positive rational \<open>q\<close>, found from the digit counts of numerator and denominator.
\<close>

function digit_count :: "int \<Rightarrow> int \<Rightarrow> nat" where
  "digit_count b n = (if 1 < b \<and> 0 < n then Suc (digit_count b (n div b)) else 0)"
  by pat_completeness auto
termination
proof (relation "measure (\<lambda>(b, n). nat n)")
  show "wf (measure (\<lambda>(b, n). nat n))"
    by simp
next
  fix b n :: int
  assume "1 < b \<and> 0 < n"
  then have "n div b < n"
    by (metis int_div_less_self)
  then show "((b, n div b), (b, n)) \<in> measure (\<lambda>(b, n). nat n)"
    using \<open>1 < b \<and> 0 < n\<close> by simp
qed

declare digit_count.simps [simp del]

definition ilog :: "int \<Rightarrow> rat \<Rightarrow> int" where
  "ilog b q =
     (let (n, d) = quotient_of q;
          e = int (digit_count b n) - int (digit_count b d)
      in if of_int b powi e \<le> q then e else e - 1)"

text \<open>Rounding a rational to an integer, to nearest, ties to the even neighbour.\<close>

definition rhe :: "rat \<Rightarrow> int" where
  "rhe r =
     (let n = \<lfloor>r\<rfloor>; d = r - of_int n
      in if d < 1 / 2 then n
         else if 1 / 2 < d then n + 1
         else if even n then n else n + 1)"

text \<open>
  The exponent of the least significant bit of the subnormal numbers, the largest finite
  magnitude, and the exponent of the last place (the unit in which a magnitude \<open>q\<close> is
  stored): \<open>-1074\<close>, \<open>(2^53 - 1) * 2^971\<close> for binary64 and \<open>-149\<close>, \<open>(2^24 - 1) * 2^104\<close>
  for binary32.
\<close>

definition min_exp :: "fp_format \<Rightarrow> int" where
  "min_exp fmt = 2 - emax fmt - int (precision fmt)"

definition max_finite :: "fp_format \<Rightarrow> rat" where
  "max_finite fmt = (2 ^ precision fmt - 1) * 2 powi (emax fmt + 1 - int (precision fmt))"

definition ulp_exp :: "fp_format \<Rightarrow> rat \<Rightarrow> int" where
  "ulp_exp fmt q = max (ilog 2 q + 1 - int (precision fmt)) (min_exp fmt)"

definition round_mag :: "fp_format \<Rightarrow> rat \<Rightarrow> rat" where
  "round_mag fmt q =
     (if q = 0 then 0
      else let k = ulp_exp fmt q in of_int (rhe (q / 2 powi k)) * 2 powi k)"

text \<open>
  Rounding a magnitude with its sign into a format: a result beyond the largest finite
  magnitude overflows to the infinity of that sign.
\<close>

definition fp_round :: "fp_format \<Rightarrow> bool \<Rightarrow> rat \<Rightarrow> fpval" where
  "fp_round fmt s q =
     (let r = round_mag fmt q in if max_finite fmt < r then Infinite s else Finite s r)"

definition fp_of_rat :: "fp_format \<Rightarrow> rat \<Rightarrow> fpval" where
  "fp_of_rat fmt v = fp_round fmt (v < 0) \<bar>v\<bar>"

text \<open>
  The data of a format: a finite magnitude is non-negative, at most the largest finite
  one, and a whole multiple of its unit in the last place.
\<close>

definition on_grid :: "fp_format \<Rightarrow> rat \<Rightarrow> bool" where
  "on_grid fmt q =
     (q = 0 \<or> (let u = q / 2 powi ulp_exp fmt q in of_int \<lfloor>u\<rfloor> = u))"

fun is_fp :: "fp_format \<Rightarrow> fpval \<Rightarrow> bool" where
  "is_fp fmt (Finite s m) = (0 \<le> m \<and> m \<le> max_finite fmt \<and> on_grid fmt m)"
| "is_fp fmt (Infinite s) = True"
| "is_fp fmt (NaN s) = True"

fun fp_val :: "fpval \<Rightarrow> rat" where
  "fp_val (Finite s m) = (if s then - m else m)"
| "fp_val (Infinite s) = 0"
| "fp_val (NaN s) = 0"

fun fp_neg :: "fpval \<Rightarrow> fpval" where
  "fp_neg (Finite s m) = Finite (\<not> s) m"
| "fp_neg (Infinite s) = Infinite (\<not> s)"
| "fp_neg (NaN s) = NaN (\<not> s)"

text \<open>
  Addition: the exact sum, rounded.  An exact zero sum is \<open>+0\<close> unless both operands are
  negative zeros; a NaN operand is the result; opposite infinities give the default NaN,
  whose sign bit is set on x86.
\<close>

fun fp_add :: "fp_format \<Rightarrow> fpval \<Rightarrow> fpval \<Rightarrow> fpval" where
  "fp_add fmt (NaN u) y = NaN u"
| "fp_add fmt x (NaN u) = NaN u"
| "fp_add fmt (Infinite s) (Infinite t) = (if s = t then Infinite s else NaN True)"
| "fp_add fmt (Infinite s) (Finite t k) = Infinite s"
| "fp_add fmt (Finite s m) (Infinite t) = Infinite t"
| "fp_add fmt (Finite s m) (Finite t k) =
     (let v = fp_val (Finite s m) + fp_val (Finite t k)
      in if v = 0 then Finite (s \<and> t) 0 else fp_of_rat fmt v)"

definition fp_sub :: "fp_format \<Rightarrow> fpval \<Rightarrow> fpval \<Rightarrow> fpval" where
  "fp_sub fmt x y = fp_add fmt x (fp_neg y)"

text \<open>The comparison \<^verbatim>\<open>x >= y\<close>: false as soon as one side is a NaN.\<close>

fun fp_ge :: "fpval \<Rightarrow> fpval \<Rightarrow> bool" where
  "fp_ge (NaN u) y = False"
| "fp_ge x (NaN u) = False"
| "fp_ge (Infinite s) (Infinite t) = (\<not> s \<or> t)"
| "fp_ge (Infinite s) (Finite t k) = (\<not> s)"
| "fp_ge (Finite s m) (Infinite t) = t"
| "fp_ge (Finite s m) (Finite t k) = (fp_val (Finite t k) \<le> fp_val (Finite s m))"

text \<open>
  Conversions between the floating types round into the target format, so widening a
  \<^verbatim>\<open>float\<close> is exact and narrowing a \<^verbatim>\<open>double\<close> rounds.
\<close>

fun fp_convert :: "fp_format \<Rightarrow> fpval \<Rightarrow> fpval" where
  "fp_convert fmt (Finite s m) = fp_round fmt s m"
| "fp_convert fmt (Infinite s) = Infinite s"
| "fp_convert fmt (NaN s) = NaN s"

definition float_to_double :: "float \<Rightarrow> double" where
  "float_to_double f = fp_convert binary64 f"

definition double_to_float :: "double \<Rightarrow> float" where
  "double_to_float x = fp_convert binary32 x"

text \<open>
  Converting a \<^verbatim>\<open>double\<close> to \<^verbatim>\<open>int\<close> discards the fractional part (truncation toward
  zero).  When the integral part is not a value of \<^verbatim>\<open>int\<close>, and for infinities and NaNs,
  C leaves the behaviour undefined: the model returns an error instead of a number.
  The second error stands for a \<^verbatim>\<open>printf\<close> call whose behaviour is undefined.
\<close>

datatype c_error = Undefined_Conversion | Undefined_Printf

definition int_min :: int where
  "int_min = - (2 ^ 31)"

definition int_max :: int where
  "int_max = 2 ^ 31 - 1"

fun truncate_fp :: "fpval \<Rightarrow> int option" where
  "truncate_fp (Finite s m) = Some (if s then - \<lfloor>m\<rfloor> else \<lfloor>m\<rfloor>)"
| "truncate_fp (Infinite s) = None"
| "truncate_fp (NaN s) = None"

definition double_to_int :: "double \<Rightarrow> c_error + c_int" where
  "double_to_int x =
     (case truncate_fp x of
        None \<Rightarrow> Inl Undefined_Conversion
      | Some t \<Rightarrow>
          if int_min \<le> t \<and> t \<le> int_max then Inr (word_of_int t)
          else Inl Undefined_Conversion)"

text \<open>An \<^verbatim>\<open>int\<close> converted to \<^verbatim>\<open>float\<close> is rounded to the nearest \<^verbatim>\<open>float\<close>.\<close>

definition int_to_float :: "c_int \<Rightarrow> float" where
  "int_to_float n = fp_of_rat binary32 (of_int (sint n))"

section \<open>The rounding helper\<close>

text \<open>
  \<^verbatim>\<open>int iround(double x) { int n; if ( x >= 0.0 ) n = x + 0.5; else n = x - 0.5; return ( n ); }\<close>
\<close>

definition iround :: "double \<Rightarrow> c_error + c_int" where
  "iround x =
     (if fp_ge x (Finite False 0) then double_to_int (fp_add binary64 x (Finite False (1 / 2)))
      else double_to_int (fp_sub binary64 x (Finite False (1 / 2))))"

text \<open>
  The value that \<open>iround\<close> converts, and the values whose conversion to \<^verbatim>\<open>int\<close> is
  defined: the finite ones whose integral part lies between \<open>INT_MIN\<close> and \<open>INT_MAX\<close>,
  that is, the values strictly between \<open>-2^31 - 1\<close> and \<open>2^31\<close>.
\<close>

definition in_int_range :: "double \<Rightarrow> bool" where
  "in_int_range y =
     (case y of
        Finite s m \<Rightarrow> - (2 ^ 31) - 1 < fp_val y \<and> fp_val y < 2 ^ 31
      | Infinite s \<Rightarrow> False
      | NaN s \<Rightarrow> False)"

definition adjusted :: "double \<Rightarrow> double" where
  "adjusted x =
     (if fp_ge x (Finite False 0) then fp_add binary64 x (Finite False (1 / 2))
      else fp_sub binary64 x (Finite False (1 / 2)))"

text \<open>
  The nearest integer with ties away from zero, and the magnitude \<open>0.49999999999999994\<close>
  of the \<^verbatim>\<open>double\<close> next below \<open>0.5\<close>.
\<close>

definition round_half_away :: "rat \<Rightarrow> int" where
  "round_half_away v = (if 0 \<le> v then \<lfloor>v + 1 / 2\<rfloor> else - \<lfloor>- v + 1 / 2\<rfloor>)"

definition pred_half :: rat where
  "pred_half = 1 / 2 - 1 / 2 ^ 54"

section \<open>Formatted output\<close>

text \<open>
  The standard output stream is the text written to it so far.  \<^verbatim>\<open>printf\<close> is modelled
  for the conversions the library uses: \<^verbatim>\<open>%s\<close>, \<^verbatim>\<open>%d\<close>, \<^verbatim>\<open>%g\<close> (and \<^verbatim>\<open>%%\<close>); any other
  conversion, a missing argument or an argument of the wrong type is undefined behaviour.
\<close>

type_synonym stdout = string

datatype printf_arg = Arg_str "char list" | Arg_int c_int | Arg_double double

text \<open>
  A \<^verbatim>\<open>char str[]\<close> argument is the array's content; the string it holds ends before the
  first NUL, and an array without a NUL is not a string.
\<close>

definition c_string :: "char list \<Rightarrow> c_error + string" where
  "c_string a =
     (if CHR 0x00 \<in> set a then Inr (takeWhile (\<lambda>c. c \<noteq> CHR 0x00) a)
      else Inl Undefined_Printf)"

definition digit_char :: "int \<Rightarrow> char" where
  "digit_char d = ''0123456789'' ! nat d"

function dec :: "int \<Rightarrow> string" where
  "dec n = (if n < 10 then [digit_char n] else dec (n div 10) @ [digit_char (n mod 10)])"
  by pat_completeness auto
termination
  by (relation "measure nat") auto

declare dec.simps [simp del]

text \<open>\<^verbatim>\<open>%d\<close>: the decimal digits of the value, after a minus sign when it is negative.\<close>

definition fmt_d :: "c_int \<Rightarrow> string" where
  "fmt_d n = (let v = sint n in if v < 0 then CHR ''-'' # dec (- v) else dec v)"

text \<open>
  \<^verbatim>\<open>%g\<close> with the default precision \<open>P = 6\<close>.  \<open>sig_digits P q\<close> rounds the positive
  magnitude \<open>q\<close> to \<open>P\<close> significant decimal digits: the digits as an integer \<open>n\<close> with
  \<open>10 ^ (P - 1) \<le> n < 10 ^ P\<close>, and the decimal exponent \<open>X\<close> of the first digit.  Style
  \<^verbatim>\<open>f\<close> with \<open>P - 1 - X\<close> digits after the point is used when \<open>-4 \<le> X < P\<close>, style \<^verbatim>\<open>e\<close>
  with \<open>P - 1\<close> digits otherwise; trailing zeros of the fraction are removed, and the
  point when no fraction is left; the exponent is written with a sign and at least two
  digits.
\<close>

definition sig_digits :: "nat \<Rightarrow> rat \<Rightarrow> int \<times> int" where
  "sig_digits P q =
     (let X = ilog 10 q; n = rhe (q / 10 powi (X - int P + 1))
      in if n = 10 ^ P then (10 ^ (P - 1), X + 1) else (n, X))"

definition strip_zeros :: "string \<Rightarrow> string" where
  "strip_zeros s = rev (dropWhile (\<lambda>c. c = CHR ''0'') (rev s))"

definition strip_point :: "string \<Rightarrow> string" where
  "strip_point s = (if s \<noteq> [] \<and> last s = CHR ''.'' then butlast s else s)"

definition frac_digits :: "nat \<Rightarrow> int \<Rightarrow> string" where
  "frac_digits k f = (if k = 0 then [] else replicate (k - length (dec f)) CHR ''0'' @ dec f)"

definition exp_digits :: "int \<Rightarrow> string" where
  "exp_digits X =
     (if X < 0 then CHR ''-'' else CHR ''+'') #
     (if \<bar>X\<bar> < 10 then CHR ''0'' # dec \<bar>X\<bar> else dec \<bar>X\<bar>)"

definition fmt_g_mag :: "rat \<Rightarrow> string" where
  "fmt_g_mag q =
     (if q = 0 then ''0''
      else let (n, X) = sig_digits 6 q
           in if X < - 4 \<or> 6 \<le> X
              then strip_point (strip_zeros (hd (dec n) # CHR ''.'' # tl (dec n)))
                   @ CHR ''e'' # exp_digits X
              else let k = nat (5 - X)
                   in strip_point (strip_zeros
                        (dec (n div 10 ^ k) @ CHR ''.'' # frac_digits k (n mod 10 ^ k))))"

fun fmt_g :: "double \<Rightarrow> string" where
  "fmt_g (Finite s m) = (if s then CHR ''-'' # fmt_g_mag m else fmt_g_mag m)"
| "fmt_g (Infinite s) = (if s then ''-inf'' else ''inf'')"
| "fmt_g (NaN s) = (if s then ''-nan'' else ''nan'')"

fun conversion :: "char \<Rightarrow> printf_arg \<Rightarrow> c_error + string" where
  "conversion c (Arg_str a) = (if c = CHR ''s'' then c_string a else Inl Undefined_Printf)"
| "conversion c (Arg_int n) = (if c = CHR ''d'' then Inr (fmt_d n) else Inl Undefined_Printf)"
| "conversion c (Arg_double x) = (if c = CHR ''g'' then Inr (fmt_g x) else Inl Undefined_Printf)"

fun printf_text :: "string \<Rightarrow> printf_arg list \<Rightarrow> c_error + string" where
  "printf_text [] args = Inr []"
| "printf_text [c] args = (if c = CHR ''%'' then Inl Undefined_Printf else Inr [c])"
| "printf_text (c # d # ds) args =
     (if c \<noteq> CHR ''%'' then map_sum id (Cons c) (printf_text (d # ds) args)
      else if d = CHR ''%'' then map_sum id (Cons d) (printf_text ds args)
      else (case args of
              [] \<Rightarrow> Inl Undefined_Printf
            | a # as \<Rightarrow>
                (case conversion d a of
                   Inl e \<Rightarrow> Inl e
                 | Inr t \<Rightarrow> map_sum id (append t) (printf_text ds as))))"

definition printf :: "string \<Rightarrow> printf_arg list \<Rightarrow> stdout \<Rightarrow> c_error + stdout" where
  "printf fmt args out = map_sum id (append out) (printf_text fmt args)"

text \<open>
  The six wrappers, each one \<^verbatim>\<open>printf\<close> call with the format of the source:
  \<^verbatim>\<open>"%s"\<close>, \<^verbatim>\<open>"%s\n"\<close>, \<^verbatim>\<open>"%g"\<close>, \<^verbatim>\<open>"%d"\<close>, \<^verbatim>\<open>"%g\n"\<close>, \<^verbatim>\<open>"%d\n"\<close>.
  (\<open>write\<close> is a keyword of Isabelle, so the first one carries a prime.)
\<close>

definition write' :: "char list \<Rightarrow> stdout \<Rightarrow> c_error + stdout" where
  "write' str out = printf ''%s'' [Arg_str str] out"

definition writeln :: "char list \<Rightarrow> stdout \<Rightarrow> c_error + stdout" where
  "writeln str out = printf ''%s\<newline>'' [Arg_str str] out"

definition writef :: "double \<Rightarrow> stdout \<Rightarrow> c_error + stdout" where
  "writef x out = printf ''%g'' [Arg_double x] out"

definition writei :: "c_int \<Rightarrow> stdout \<Rightarrow> c_error + stdout" where
  "writei n out = printf ''%d'' [Arg_int n] out"

definition writelnf :: "double \<Rightarrow> stdout \<Rightarrow> c_error + stdout" where
  "writelnf x out = printf ''%g\<newline>'' [Arg_double x] out"

definition writelni :: "c_int \<Rightarrow> stdout \<Rightarrow> c_error + stdout" where
  "writelni n out = printf ''%d\<newline>'' [Arg_int n] out"

text \<open>
  Reading a decimal text back: the value of a digit string, and the number a text of the
  shape \<^verbatim>\<open>[-]digits[.digits][e(+|-)digits]\<close> denotes.
\<close>

definition digit_val :: "char \<Rightarrow> int" where
  "digit_val c = int (length (takeWhile (\<lambda>d. d \<noteq> c) ''0123456789''))"

definition digits_val :: "string \<Rightarrow> int" where
  "digits_val s = foldl (\<lambda>a c. 10 * a + digit_val c) 0 s"

definition signed_val :: "string \<Rightarrow> int" where
  "signed_val s =
     (case s of
        [] \<Rightarrow> 0
      | c # r \<Rightarrow>
          if c = CHR ''-'' then - digits_val r
          else if c = CHR ''+'' then digits_val r
          else digits_val s)"

definition unsigned_decimal :: "string \<Rightarrow> rat" where
  "unsigned_decimal s =
     (let mant = takeWhile (\<lambda>c. c \<noteq> CHR ''e'') s;
          ex = drop 1 (dropWhile (\<lambda>c. c \<noteq> CHR ''e'') s);
          ip = takeWhile (\<lambda>c. c \<noteq> CHR ''.'') mant;
          fr = drop 1 (dropWhile (\<lambda>c. c \<noteq> CHR ''.'') mant)
      in of_int (digits_val (ip @ fr)) / 10 ^ length fr * 10 powi signed_val ex)"

definition decimal_value :: "string \<Rightarrow> rat" where
  "decimal_value s =
     (case s of
        [] \<Rightarrow> 0
      | c # r \<Rightarrow> if c = CHR ''-'' then - unsigned_decimal r else unsigned_decimal s)"

text \<open>The decimal digits, and the characters a \<^verbatim>\<open>%g\<close> conversion is written with.\<close>

definition digits :: "char set" where
  "digits = set ''0123456789''"

definition g_chars :: "char set" where
  "g_chars = set ''0123456789.e+-infa''"

text \<open>One output call after another: the second runs on the stream the first leaves.\<close>

definition and_then ::
  "(stdout \<Rightarrow> c_error + stdout) \<Rightarrow> (stdout \<Rightarrow> c_error + stdout) \<Rightarrow> stdout \<Rightarrow> c_error + stdout" where
  "and_then f g out = (case f out of Inl e \<Rightarrow> Inl e | Inr out' \<Rightarrow> g out')"

section \<open>Allocation\<close>

text \<open>
  \<^verbatim>\<open>int* new(int size) { return (int*) malloc(size); }\<close>

  The platform allocator is a parameter: a function from the requested size and the heap
  to the returned address (0 is the null pointer) and the heap afterwards.  Passing the
  \<^verbatim>\<open>int\<close> to \<^verbatim>\<open>malloc\<close> converts it to \<^verbatim>\<open>size_t\<close>, which keeps the value modulo the width
  of \<^verbatim>\<open>size_t\<close>; the pointer cast does not change the address.
\<close>

definition new :: "('a::len word \<Rightarrow> 'h \<Rightarrow> 'a word \<times> 'h) \<Rightarrow> c_int \<Rightarrow> 'h \<Rightarrow> 'a word \<times> 'h" where
  "new malloc sz h = malloc (scast sz) h"

text \<open>
  An allocator to run \<open>new\<close> on: blocks are cut from the free range \<open>[brk, top)\<close>, the
  memory content is left as it is.
\<close>

record heap =
  brk :: "32 word"
  top :: "32 word"
  mem :: "32 word \<Rightarrow> 8 word"

definition bump_malloc :: "32 word \<Rightarrow> heap \<Rightarrow> 32 word \<times> heap" where
  "bump_malloc n h =
     (if unat (brk h) + unat n \<le> unat (top h) then (brk h, h\<lparr>brk := brk h + n\<rparr>)
      else (0, h))"

text \<open>A heap of 4096 free bytes whose memory holds the byte \<open>0xAA\<close> everywhere.\<close>

definition heap0 :: heap where
  "heap0 = \<lparr>brk = 4096, top = 8192, mem = (\<lambda>a. 170)\<rparr>"

section \<open>The entry point\<close>

text \<open>
  \<^verbatim>\<open>int main() { return asm_main(); }\<close>

  \<^verbatim>\<open>asm_main\<close> is linked in from elsewhere: a parameter, a function from the state of the
  process to its result and the state afterwards.  The state seen by \<open>main\<close> carries,
  next to it, the number of calls of \<^verbatim>\<open>asm_main\<close> made so far.
\<close>

record 'w process =
  world :: 'w
  asm_main_calls :: nat

definition call_asm_main :: "('w \<Rightarrow> c_int \<times> 'w) \<Rightarrow> 'w process \<Rightarrow> c_int \<times> 'w process" where
  "call_asm_main asm_main p =
     (let (r, w) = asm_main (world p)
      in (r, \<lparr>world = w, asm_main_calls = Suc (asm_main_calls p)\<rparr>))"

definition main :: "('w \<Rightarrow> c_int \<times> 'w) \<Rightarrow> 'w process \<Rightarrow> c_int \<times> 'w process" where
  "main asm_main p = call_asm_main asm_main p"

text \<open>
  Returning from \<open>main\<close> ends the process as a call of \<^verbatim>\<open>exit\<close> with the value returned
  does.  What the parent process gets of that value is the exit status: on a POSIX
  system its low eight bits (\<^verbatim>\<open>status & 0377\<close>), a number from 0 to 255.
\<close>

definition exit_status :: "c_int \<Rightarrow> nat" where
  "exit_status r = unat r mod 256"

definition process_exit_status :: "('w \<Rightarrow> c_int \<times> 'w) \<Rightarrow> 'w process \<Rightarrow> nat" where
  "process_exit_status asm_main p = exit_status (fst (main asm_main p))"

section \<open>The single-precision entry points\<close>

text \<open>
  \<^verbatim>\<open>#define FUNC32(a) a##32(float f) { return a((double) f); }\<close>

  Each use is written after a return type: \<^verbatim>\<open>float FUNC32(sin)\<close> is
  \<^verbatim>\<open>float sin32(float f) { return sin((double) f); }\<close>.  The macro is a function of the
  callee \<open>a\<close> and of \<open>ret\<close>, the conversion of the returned expression to the return type
  written before it: \<^verbatim>\<open>double\<close> to \<^verbatim>\<open>float\<close> for the functions of \<^verbatim>\<open>math.h\<close>, \<^verbatim>\<open>int\<close> to
  \<^verbatim>\<open>float\<close> for \<open>iround\<close>, nothing for the two \<^verbatim>\<open>void\<close> functions.
\<close>

definition FUNC32 :: "('r \<Rightarrow> 't) \<Rightarrow> (double \<Rightarrow> 'r) \<Rightarrow> float \<Rightarrow> 't" where
  "FUNC32 ret a f = ret (a (float_to_double f))"

text \<open>The functions of \<^verbatim>\<open>math.h\<close> that the library wraps are parameters.\<close>

record libm =
  libm_sin :: "double \<Rightarrow> double"
  libm_cos :: "double \<Rightarrow> double"
  libm_sqrt :: "double \<Rightarrow> double"
  libm_exp :: "double \<Rightarrow> double"
  libm_round :: "double \<Rightarrow> double"

definition sin32 :: "libm \<Rightarrow> float \<Rightarrow> float" where
  "sin32 L = FUNC32 double_to_float (libm_sin L)"

definition cos32 :: "libm \<Rightarrow> float \<Rightarrow> float" where
  "cos32 L = FUNC32 double_to_float (libm_cos L)"

definition sqrt32 :: "libm \<Rightarrow> float \<Rightarrow> float" where
  "sqrt32 L = FUNC32 double_to_float (libm_sqrt L)"

definition exp32 :: "libm \<Rightarrow> float \<Rightarrow> float" where
  "exp32 L = FUNC32 double_to_float (libm_exp L)"

definition round32 :: "libm \<Rightarrow> float \<Rightarrow> float" where
  "round32 L = FUNC32 double_to_float (libm_round L)"

definition iround32 :: "float \<Rightarrow> c_error + float" where
  "iround32 = FUNC32 (map_sum id int_to_float) iround"

definition writef32 :: "float \<Rightarrow> stdout \<Rightarrow> c_error + stdout" where
  "writef32 = FUNC32 id writef"

definition writelnf32 :: "float \<Rightarrow> stdout \<Rightarrow> c_error + stdout" where
  "writelnf32 = FUNC32 id writelnf"

section \<open>Properties of the output wrappers\<close>

lemma c_string_terminated:
  "CHR 0x00 \<notin> set s \<Longrightarrow> c_string (s @ CHR 0x00 # rest) = Inr s"
  by (auto simp: c_string_def takeWhile_tail)

lemma printf_text_s [simp]: "printf_text ''%s'' [Arg_str a] = c_string a"
  by (cases "c_string a") simp_all

lemma printf_text_s_nl [simp]:
  "printf_text ''%s\<newline>'' [Arg_str a] = map_sum id (\<lambda>t. t @ ''\<newline>'') (c_string a)"
  by (cases "c_string a") simp_all

lemma printf_text_d [simp]: "printf_text ''%d'' [Arg_int n] = Inr (fmt_d n)"
  by simp

lemma printf_text_d_nl [simp]: "printf_text ''%d\<newline>'' [Arg_int n] = Inr (fmt_d n @ ''\<newline>'')"
  by simp

lemma printf_text_g [simp]: "printf_text ''%g'' [Arg_double x] = Inr (fmt_g x)"
  by simp

lemma printf_text_g_nl [simp]: "printf_text ''%g\<newline>'' [Arg_double x] = Inr (fmt_g x @ ''\<newline>'')"
  by simp

text \<open>
  C5.  For a string \<open>s\<close> (the characters before the terminating NUL of the array passed),
  \<open>write\<close> appends exactly \<open>s\<close> to the standard output and \<open>writeln\<close> appends \<open>s\<close> and one
  newline; two calls in a row leave the two texts one after the other with nothing in
  between: \<open>write("abc")\<close> then \<open>write("def")\<close> gives \<open>abcdef\<close>, \<open>writeln("abc")\<close> gives
  \<open>abc\<close> and a newline.
\<close>

theorem write_writeln_emit:
  assumes "CHR 0x00 \<notin> set s" and "CHR 0x00 \<notin> set t"
  shows "write' (s @ CHR 0x00 # r) out = Inr (out @ s)
       \<and> writeln (s @ CHR 0x00 # r) out = Inr (out @ s @ ''\<newline>'')
       \<and> and_then (write' (s @ CHR 0x00 # r)) (write' (t @ CHR 0x00 # r')) out = Inr (out @ s @ t)
       \<and> and_then (writeln (s @ CHR 0x00 # r)) (write' (t @ CHR 0x00 # r')) out
           = Inr (out @ s @ ''\<newline>'' @ t)"
  using assms
  by (simp add: write'_def writeln_def printf_def and_then_def c_string_terminated)

theorem write_writeln_emit_witness:
  "write' (''abc'' @ CHR 0x00 # []) [] = Inr ''abc''
   \<and> writeln (''abc'' @ CHR 0x00 # []) [] = Inr ''abc\<newline>''
   \<and> and_then (write' (''abc'' @ CHR 0x00 # [])) (write' (''def'' @ CHR 0x00 # [])) [] = Inr ''abcdef''"
  using write_writeln_emit [of "''abc''" "''def''" "[]" "[]" "[]"]
  by simp

lemma digit_cases:
  "0 \<le> d \<Longrightarrow> d < 10 \<Longrightarrow>
   d = 0 \<or> d = 1 \<or> d = 2 \<or> d = 3 \<or> d = 4 \<or> d = 5 \<or> d = 6 \<or> d = 7 \<or> d = 8 \<or> d = (9::int)"
  by arith

lemma digit_val_digit_char:
  assumes "0 \<le> d" and "d < 10"
  shows "digit_val (digit_char d) = d"
  using digit_cases [OF assms] by (elim disjE) (simp_all add: digit_val_def digit_char_def)

lemma digits_val_snoc: "digits_val (s @ [c]) = 10 * digits_val s + digit_val c"
  by (simp add: digits_val_def)

lemma digits_val_dec: "0 \<le> n \<Longrightarrow> digits_val (dec n) = n"
proof (induction n rule: dec.induct)
  case (1 n)
  show ?case
  proof (cases "n < 10")
    case True
    with "1.prems" show ?thesis
      by (subst dec.simps) (simp add: digits_val_def digit_val_digit_char)
  next
    case False
    then have "digits_val (dec (n div 10)) = n div 10"
      using "1.IH" "1.prems" by simp
    with False show ?thesis
      by (subst dec.simps) (simp add: digits_val_snoc digit_val_digit_char)
  qed
qed

lemma digit_char_digit: "d < 10 \<Longrightarrow> digit_char d \<in> digits"
proof (cases "0 \<le> d")
  case True
  assume "d < 10"
  with True have "d = 0 \<or> d = 1 \<or> d = 2 \<or> d = 3 \<or> d = 4 \<or> d = 5 \<or> d = 6 \<or> d = 7 \<or> d = 8 \<or> d = 9"
    by arith
  then show ?thesis
    by (elim disjE) (simp_all add: digit_char_def digits_def)
next
  case False
  then have "nat d = 0"
    by simp
  then show ?thesis
    by (simp add: digit_char_def digits_def)
qed

lemma dec_digits: "set (dec n) \<subseteq> digits"
proof (induction n rule: dec.induct)
  case (1 n)
  show ?case
  proof (cases "n < 10")
    case True
    then show ?thesis
      using digit_char_digit [of n] by (subst dec.simps) simp
  next
    case False
    moreover have "digit_char (n mod 10) \<in> digits"
      by (rule digit_char_digit) simp
    ultimately show ?thesis
      using "1.IH" by (subst dec.simps) simp
  qed
qed

lemma dec_not_Nil: "dec n \<noteq> []"
  by (subst dec.simps) simp

lemma signed_val_dec: "0 \<le> n \<Longrightarrow> signed_val (dec n) = n"
proof -
  assume n: "0 \<le> n"
  obtain c r where cr: "dec n = c # r"
    using dec_not_Nil [of n] by (cases "dec n") auto
  have "c \<in> set ''0123456789''"
    using dec_digits [of n] cr by (auto simp: digits_def)
  then have "c \<noteq> CHR ''-''" "c \<noteq> CHR ''+''"
    by auto
  then show ?thesis
    using digits_val_dec [OF n] cr by (simp add: signed_val_def)
qed

lemma signed_val_fmt_d: "signed_val (fmt_d n) = sint n"
proof (cases "sint n < 0")
  case True
  then show ?thesis
    using digits_val_dec [of "- sint n"] by (simp add: fmt_d_def signed_val_def)
next
  case False
  then show ?thesis
    using signed_val_dec [of "sint n"] by (simp add: fmt_d_def)
qed

text \<open>
  C8.  \<open>writei(n)\<close> appends the signed decimal rendering of \<open>n\<close> and nothing else (read
  back as a signed decimal numeral the text is \<open>n\<close>, and \<open>writei(42)\<close> prints \<open>42\<close>); the
  line variants print what the plain variants print, followed by one newline:
  \<open>writelni(n)\<close> is \<open>writei(n)\<close> plus a newline and \<open>writelnf(x)\<close> is \<open>writef(x)\<close> plus a
  newline.
\<close>

theorem writei_and_line_variants:
  "writei n out = Inr (out @ fmt_d n)
   \<and> signed_val (fmt_d n) = sint n
   \<and> writei 42 [] = Inr ''42''
   \<and> writelni n out = map_sum id (\<lambda>t. t @ ''\<newline>'') (writei n out)
   \<and> writelnf x out = map_sum id (\<lambda>t. t @ ''\<newline>'') (writef x out)"
proof -
  have "fmt_d 42 = ''42''"
    by code_simp
  then show ?thesis
    by (simp add: writei_def writelni_def writelnf_def writef_def printf_def signed_val_fmt_d)
qed

lemma strip_zeros_subset: "set (strip_zeros s) \<subseteq> set s"
  by (auto simp: strip_zeros_def dest: set_dropWhileD)

lemma strip_point_subset: "set (strip_point s) \<subseteq> set s"
  by (auto simp: strip_point_def dest: in_set_butlastD)

lemma strip_zeros_point:
  "strip_zeros (xs @ CHR ''.'' # ys) = xs @ CHR ''.'' # strip_zeros ys"
  by (simp add: strip_zeros_def dropWhile_append3)

lemma strip_point_not_empty: "xs \<noteq> [] \<Longrightarrow> strip_point (xs @ c # ys) \<noteq> []"
  by (cases xs) (auto simp: strip_point_def)

lemma frac_digits_subset: "set (frac_digits k f) \<subseteq> digits"
  using dec_digits [of f] by (auto simp: frac_digits_def digits_def)

lemma g_chars_members:
  "digits \<subseteq> g_chars" "CHR ''.'' \<in> g_chars" "CHR ''e'' \<in> g_chars"
  "CHR ''+'' \<in> g_chars" "CHR ''-'' \<in> g_chars" "CHR ''0'' \<in> g_chars"
  "set ''inf'' \<subseteq> g_chars" "set ''-inf'' \<subseteq> g_chars" "set ''nan'' \<subseteq> g_chars"
  "set ''-nan'' \<subseteq> g_chars"
  by (simp_all add: g_chars_def digits_def)

lemma dec_g_chars: "set (dec n) \<subseteq> g_chars"
  using dec_digits [of n] g_chars_members(1) by (rule subset_trans)

lemma frac_digits_g_chars: "set (frac_digits k f) \<subseteq> g_chars"
  using frac_digits_subset [of k f] g_chars_members(1) by (rule subset_trans)

lemma exp_digits_g_chars: "set (exp_digits X) \<subseteq> g_chars"
  using dec_g_chars g_chars_members(4,5,6) by (simp add: exp_digits_def)

lemma stripped_g_chars:
  assumes "set s \<subseteq> g_chars"
  shows "set (strip_point (strip_zeros s)) \<subseteq> g_chars"
  using assms strip_point_subset [of "strip_zeros s"] strip_zeros_subset [of s] by blast

lemma fmt_g_mag_chars: "set (fmt_g_mag q) \<subseteq> g_chars"
proof (cases "q = 0")
  case True
  then show ?thesis
    using g_chars_members(6) by (simp add: fmt_g_mag_def)
next
  case False
  obtain n X where nX: "sig_digits 6 q = (n, X)"
    by (cases "sig_digits 6 q")
  obtain c cs where dn: "dec n = c # cs"
    using dec_not_Nil [of n] by (cases "dec n") auto
  have "set (hd (dec n) # CHR ''.'' # tl (dec n)) \<subseteq> g_chars"
    using dec_g_chars [of n] g_chars_members(2) unfolding dn by simp
  then have e: "set (strip_point (strip_zeros (hd (dec n) # CHR ''.'' # tl (dec n)))) \<subseteq> g_chars"
    by (rule stripped_g_chars)
  have x: "set (CHR ''e'' # exp_digits X) \<subseteq> g_chars"
    using exp_digits_g_chars [of X] g_chars_members(3) by simp
  have "set (dec i @ CHR ''.'' # frac_digits k f) \<subseteq> g_chars" for i k f
    using dec_g_chars [of i] frac_digits_g_chars [of k f] g_chars_members(2) by simp
  then have f: "set (strip_point (strip_zeros (dec i @ CHR ''.'' # frac_digits k f))) \<subseteq> g_chars"
    for i k f
    by (rule stripped_g_chars)
  show ?thesis
  proof (cases "X < - 4 \<or> 6 \<le> X")
    case True
    then have "fmt_g_mag q = strip_point (strip_zeros (hd (dec n) # CHR ''.'' # tl (dec n)))
        @ CHR ''e'' # exp_digits X"
      using False by (simp add: fmt_g_mag_def nX)
    then show ?thesis
      using e x by simp
  next
    case range: False
    then have "fmt_g_mag q = strip_point (strip_zeros
        (dec (n div 10 ^ nat (5 - X)) @ CHR ''.'' # frac_digits (nat (5 - X)) (n mod 10 ^ nat (5 - X))))"
      using False by (simp add: fmt_g_mag_def nX Let_def)
    then show ?thesis
      using f by simp
  qed
qed

lemma fmt_g_mag_not_empty: "fmt_g_mag q \<noteq> []"
proof (cases "q = 0")
  case True
  then show ?thesis
    by (simp add: fmt_g_mag_def)
next
  case False
  obtain n X where nX: "sig_digits 6 q = (n, X)"
    by (cases "sig_digits 6 q")
  have "strip_point (strip_zeros (dec i @ CHR ''.'' # frac_digits k f)) \<noteq> []" for i k f
    unfolding strip_zeros_point using dec_not_Nil by (rule strip_point_not_empty)
  then show ?thesis
    using False by (auto simp: fmt_g_mag_def nX Let_def)
qed

lemma fmt_g_chars: "set (fmt_g x) \<subseteq> g_chars"
proof (cases x)
  case (Finite s m)
  then show ?thesis
    using fmt_g_mag_chars [of m] g_chars_members(5) by simp
next
  case (Infinite s)
  then show ?thesis
    using g_chars_members(7,8) by (cases s) simp_all
next
  case (NaN u)
  then show ?thesis
    using g_chars_members(9,10) by (cases u) simp_all
qed

lemma fmt_g_not_empty: "fmt_g x \<noteq> []"
  using fmt_g_mag_not_empty by (cases x) auto

section \<open>Properties of the floating-point arithmetic\<close>

text \<open>\<open>ilog b q\<close> is the exponent of the leading digit of \<open>q\<close> in base \<open>b\<close>.\<close>

lemma digit_count_bounds:
  "1 < b \<Longrightarrow> 0 < n \<Longrightarrow> n < b ^ digit_count b n \<and> b ^ digit_count b n \<le> b * n"
proof (induction b n rule: digit_count.induct)
  case (1 b n)
  have dc: "digit_count b n = Suc (digit_count b (n div b))"
    using "1.prems" by (subst digit_count.simps) simp
  have split: "b * (n div b) + n mod b = n" "0 \<le> n mod b" "n mod b < b"
    using "1.prems" by simp_all
  have expand: "b * (n div b + 1) = b * (n div b) + b"
    by (simp add: algebra_simps)
  show ?case
  proof (cases "n div b = 0")
    case True
    then have "digit_count b (n div b) = 0"
      by (subst digit_count.simps) simp
    moreover have "n < b"
      using split True by simp
    ultimately show ?thesis
      using dc "1.prems" by simp
  next
    case False
    moreover have "0 \<le> n div b"
      using "1.prems" by (simp add: pos_imp_zdiv_nonneg_iff)
    ultimately have pos: "0 < n div b"
      by linarith
    let ?B = "b ^ digit_count b (n div b)"
    have ih: "n div b < ?B" "?B \<le> b * (n div b)"
      using "1.IH" "1.prems" pos by simp_all
    have "n div b + 1 \<le> ?B"
      using ih(1) by simp
    then have "b * (n div b + 1) \<le> b * ?B"
      using "1.prems" by (intro mult_left_mono) simp_all
    moreover have "n < b * (n div b + 1)"
      using split expand by linarith
    ultimately have a: "n < b * ?B"
      by linarith
    have "b * ?B \<le> b * (b * (n div b))"
      using ih(2) "1.prems" by (intro mult_left_mono) simp_all
    moreover have "b * (n div b) \<le> n"
      using split by linarith
    then have "b * (b * (n div b)) \<le> b * n"
      using "1.prems" by (intro mult_left_mono) simp_all
    ultimately have c: "b * ?B \<le> b * n"
      by linarith
    show ?thesis
      using a c dc by simp
  qed
qed

lemma powi_less_cancel:
  fixes b :: rat
  assumes "1 < b" and "b powi e < b powi f"
  shows "e < f"
proof (rule ccontr)
  assume "\<not> e < f"
  then have "b powi f \<le> b powi e"
    using assms(1) by (intro power_int_increasing) simp_all
  with assms(2) show False
    by simp
qed

lemma ilog_bounds:
  assumes b: "1 < b" and q: "0 < q"
  shows "of_int b powi ilog b q \<le> q \<and> q < of_int b powi (ilog b q + 1)"
proof -
  obtain n d where nd: "quotient_of q = (n, d)"
    by (cases "quotient_of q")
  have d: "0 < d"
    using quotient_of_denom_pos [OF nd] .
  have qnd: "q = of_int n / of_int d"
    using quotient_of_div [OF nd] .
  have n: "0 < n"
    using q d qnd by (simp add: zero_less_divide_iff)
  let ?B = "of_int b :: rat"
  have B: "1 < ?B" "0 < ?B" "?B \<noteq> 0"
    using b by simp_all
  define dn where "dn = digit_count b n"
  define dd where "dd = digit_count b d"
  define e where "e = int dn - int dd"
  have bn: "n < b ^ dn" "b ^ dn \<le> b * n"
    using digit_count_bounds [OF b n] by (simp_all add: dn_def)
  have bd: "d < b ^ dd" "b ^ dd \<le> b * d"
    using digit_count_bounds [OF b d] by (simp_all add: dd_def)
  have rn: "of_int n < ?B ^ dn" "?B ^ dn \<le> ?B * of_int n"
    using bn by (metis of_int_less_iff of_int_power, metis of_int_le_iff of_int_mult of_int_power)
  have rd: "of_int d < ?B ^ dd" "?B ^ dd \<le> ?B * of_int d"
    using bd by (metis of_int_less_iff of_int_power, metis of_int_le_iff of_int_mult of_int_power)
  have pe: "?B powi e = ?B ^ dn / ?B ^ dd"
    using B by (simp add: e_def power_int_diff)
  have pe1: "?B powi (e + 1) = ?B * ?B ^ dn / ?B ^ dd"
    using B pe by (simp add: power_int_add)
  have pe0: "?B powi (e - 1) = ?B ^ dn / (?B * ?B ^ dd)"
    using B pe by (simp add: power_int_diff)
  have pd: "0 < ?B ^ dd" "0 < ?B ^ dn"
    using B by simp_all
  have dpos: "0 < (of_int d :: rat)" "0 < (of_int n :: rat)"
    using d n by simp_all
  have upper: "q < ?B powi (e + 1)"
  proof -
    have "of_int n * ?B ^ dd < ?B ^ dn * (?B * of_int d)"
      using rn(1) rd(2) pd dpos
      by (intro mult_less_le_imp_less) simp_all
    then show ?thesis
      unfolding qnd pe1 using pd dpos by (simp add: field_simps)
  qed
  have lower: "?B powi (e - 1) < q"
  proof -
    have "?B ^ dn * of_int d < (?B * of_int n) * ?B ^ dd"
      using rn(2) rd(1) pd dpos B
      by (intro mult_le_less_imp_less) simp_all
    then show ?thesis
      unfolding qnd pe0 using pd dpos B by (simp add: field_simps)
  qed
  have il: "ilog b q = (if ?B powi e \<le> q then e else e - 1)"
    by (simp add: ilog_def nd dn_def dd_def e_def Let_def)
  show ?thesis
  proof (cases "?B powi e \<le> q")
    case True
    then show ?thesis
      using il upper by simp
  next
    case False
    then show ?thesis
      using il lower by simp
  qed
qed

lemma ilog_ge:
  assumes "1 < b" and "0 < q" and "of_int b powi e \<le> q"
  shows "e \<le> ilog b q"
proof -
  have "of_int b powi e < (of_int b :: rat) powi (ilog b q + 1)"
    using ilog_bounds [OF assms(1,2)] assms(3) by simp
  then have "e < ilog b q + 1"
    using assms(1) by (intro powi_less_cancel [of "of_int b"]) simp_all
  then show ?thesis
    by simp
qed

lemma ilog_less:
  assumes "1 < b" and "0 < q" and "q < of_int b powi e"
  shows "ilog b q < e"
proof -
  have "of_int b powi ilog b q < (of_int b :: rat) powi e"
    using ilog_bounds [OF assms(1,2)] assms(3) by simp
  then show ?thesis
    using assms(1) by (intro powi_less_cancel [of "of_int b"]) simp_all
qed

lemma rhe_cases: "rhe r = \<lfloor>r\<rfloor> \<or> rhe r = \<lfloor>r\<rfloor> + 1"
  by (simp add: rhe_def Let_def)

lemma rhe_of_int [simp]: "rhe (of_int k) = k"
  by (simp add: rhe_def)

lemma rhe_ge: "of_int k \<le> r \<Longrightarrow> k \<le> rhe r"
  using rhe_cases [of r] le_floor_iff [of k r] by linarith

lemma rhe_le:
  assumes "r \<le> of_int k"
  shows "rhe r \<le> k"
proof (cases "r = of_int k")
  case True
  then show ?thesis
    by simp
next
  case False
  with assms have "r < of_int k"
    by simp
  then have "\<lfloor>r\<rfloor> < k"
    by (simp add: floor_less_iff)
  then show ?thesis
    using rhe_cases [of r] by linarith
qed


lemma two_powi_pos [simp]: "0 < (2::rat) powi k"
  by simp

lemma ilog2_less:
  assumes "0 < q" and "q < 2 powi e"
  shows "ilog 2 q < e"
  using ilog_less [of 2 q e] assms by simp

lemma ilog2_ge:
  assumes "0 < q" and "2 powi e \<le> q"
  shows "e \<le> ilog 2 q"
  using ilog_ge [of 2 q e] assms by simp

lemma ilog2_bounds:
  assumes "0 < q"
  shows "2 powi ilog 2 q \<le> q" and "q < 2 powi (ilog 2 q + 1)"
  using ilog_bounds [of 2 q] assms by simp_all

text \<open>A multiple of a power of two, on a coarser grid, is a multiple on every finer grid.\<close>

lemma powi_split:
  assumes "u \<le> k"
  shows "(2::rat) powi k = of_int (2 ^ nat (k - u)) * 2 powi u"
proof -
  have "(2::rat) powi k = 2 powi (k - u) * 2 powi u"
    by (simp flip: power_int_add)
  also have "(2::rat) powi (k - u) = 2 ^ nat (k - u)"
    using assms by (simp add: power_int_nonneg_exp)
  finally show ?thesis
    by simp
qed

lemma scaled_integer:
  fixes y :: rat
  assumes "y = of_int n * 2 powi k" and "u \<le> k"
  shows "y / 2 powi u = of_int (n * 2 ^ nat (k - u))"
  using assms(1) powi_split [OF assms(2)] by simp

text \<open>
  A magnitude \<open>n * 2 ^ k\<close> with \<open>0 < n < 2 ^ precision\<close> and \<open>k\<close> not below the least
  exponent is a value of the format: rounding leaves it as it is, and rounding any \<open>q\<close>
  never crosses it.
\<close>

lemma ulp_exp_le:
  fixes y :: rat
  assumes y: "y = of_int n * 2 powi k" and n: "0 < n" "n < 2 ^ precision fmt"
    and k: "min_exp fmt \<le> k"
  shows "ulp_exp fmt y \<le> k"
proof -
  have ypos: "0 < y"
    using y n by simp
  have "of_int n < (2::rat) ^ precision fmt"
    using n(2) by (metis of_int_less_iff of_int_numeral of_int_power)
  then have "y < 2 ^ precision fmt * 2 powi k"
    unfolding y by (intro mult_strict_right_mono) simp_all
  also have "\<dots> = 2 powi (int (precision fmt) + k)"
    by (simp add: power_int_add)
  finally have "ilog 2 y < int (precision fmt) + k"
    using ypos by (intro ilog2_less)
  then show ?thesis
    using k by (simp add: ulp_exp_def)
qed

lemma round_mag_representable:
  fixes y :: rat
  assumes y: "y = of_int n * 2 powi k" and n: "0 < n" "n < 2 ^ precision fmt"
    and k: "min_exp fmt \<le> k"
  shows "round_mag fmt y = y"
proof -
  let ?u = "ulp_exp fmt y"
  have ypos: "0 < y"
    using y n by simp
  have e: "y / 2 powi ?u = of_int (n * 2 ^ nat (k - ?u))"
    using y ulp_exp_le [OF y n k] by (rule scaled_integer)
  have "rhe (y / 2 powi ?u) = n * 2 ^ nat (k - ?u)"
    by (simp only: e rhe_of_int)
  then have "of_int (rhe (y / 2 powi ?u)) = y / 2 powi ?u"
    by (simp only: e)
  then have "of_int (rhe (y / 2 powi ?u)) * 2 powi ?u = y"
    by simp
  then show ?thesis
    using ypos by (simp add: round_mag_def Let_def)
qed

lemma grid_point:
  assumes "on_grid fmt q" and q: "0 < q"
  obtains n where "q = of_int n * 2 powi ulp_exp fmt q" and "0 < n" and "n < 2 ^ precision fmt"
proof -
  let ?u = "ulp_exp fmt q"
  define n where "n = \<lfloor>q / 2 powi ?u\<rfloor>"
  have eq: "of_int n = q / 2 powi ?u"
    using assms by (simp add: on_grid_def Let_def n_def)
  then have qn: "q = of_int n * 2 powi ?u"
    by simp
  have "0 < (of_int n :: rat)"
    using q eq by simp
  then have npos: "0 < n"
    by simp
  have "ilog 2 q + 1 - int (precision fmt) \<le> ?u"
    by (simp add: ulp_exp_def)
  then have "ilog 2 q + 1 \<le> int (precision fmt) + ?u"
    by simp
  then have "(2::rat) powi (ilog 2 q + 1) \<le> 2 powi (int (precision fmt) + ?u)"
    by (intro power_int_increasing) simp_all
  then have "q < 2 powi (int (precision fmt) + ?u)"
    using ilog2_bounds(2) [OF q] by simp
  also have "\<dots> = 2 ^ precision fmt * 2 powi ?u"
    by (simp add: power_int_add)
  finally have "of_int n * 2 powi ?u < 2 ^ precision fmt * (2::rat) powi ?u"
    using qn by simp
  then have "of_int n < (2::rat) ^ precision fmt"
    by (simp add: mult_less_cancel_right)
  then have "n < 2 ^ precision fmt"
    by (metis of_int_less_iff of_int_numeral of_int_power)
  with qn npos show ?thesis
    by (rule that)
qed

lemma round_mag_grid_le:
  assumes "0 < q" and "q / 2 powi ulp_exp fmt q \<le> of_int j"
  shows "round_mag fmt q \<le> of_int j * 2 powi ulp_exp fmt q"
proof -
  have "rhe (q / 2 powi ulp_exp fmt q) \<le> j"
    using assms(2) by (rule rhe_le)
  then have "(of_int (rhe (q / 2 powi ulp_exp fmt q)) :: rat) \<le> of_int j"
    by simp
  then show ?thesis
    using assms(1) by (simp add: round_mag_def Let_def mult_right_mono)
qed

lemma round_mag_grid_ge:
  assumes "0 < q" and "of_int j \<le> q / 2 powi ulp_exp fmt q"
  shows "of_int j * 2 powi ulp_exp fmt q \<le> round_mag fmt q"
proof -
  have "j \<le> rhe (q / 2 powi ulp_exp fmt q)"
    using assms(2) by (rule rhe_ge)
  then have "(of_int j :: rat) \<le> of_int (rhe (q / 2 powi ulp_exp fmt q))"
    by simp
  then show ?thesis
    using assms(1) by (simp add: round_mag_def Let_def mult_right_mono)
qed


lemma below_grid:
  fixes y :: rat
  assumes y: "y = of_int n * 2 powi k" and n: "0 < n" "n < 2 ^ precision fmt"
    and k: "min_exp fmt \<le> k" and q: "0 < q" and ku: "k < ulp_exp fmt q"
  shows "ulp_exp fmt q = ilog 2 q + 1 - int (precision fmt)" and "y < 2 powi ilog 2 q"
proof -
  let ?p = "int (precision fmt)"
  from k ku have "min_exp fmt < ulp_exp fmt q"
    by simp
  then show u: "ulp_exp fmt q = ilog 2 q + 1 - ?p"
    by (simp add: ulp_exp_def max_def split: if_splits)
  have "of_int n < (2::rat) ^ precision fmt"
    using n(2) by (metis of_int_less_iff of_int_numeral of_int_power)
  then have "y < 2 ^ precision fmt * 2 powi k"
    unfolding y by (intro mult_strict_right_mono) simp_all
  also have "\<dots> = 2 powi (?p + k)"
    by (simp add: power_int_add)
  also have "\<dots> \<le> 2 powi ilog 2 q"
    using ku u by (intro power_int_increasing) simp_all
  finally show "y < 2 powi ilog 2 q" .
qed

lemma round_mag_le_representable:
  fixes y :: rat
  assumes y: "y = of_int n * 2 powi k" and n: "0 < n" "n < 2 ^ precision fmt"
    and k: "min_exp fmt \<le> k" and q: "0 < q" and qy: "q \<le> y"
  shows "round_mag fmt q \<le> y"
proof (cases "ulp_exp fmt q \<le> k")
  case True
  let ?u = "ulp_exp fmt q"
  have e: "y / 2 powi ?u = of_int (n * 2 ^ nat (k - ?u))"
    using y True by (rule scaled_integer)
  have "q / 2 powi ?u \<le> y / 2 powi ?u"
    using qy by (simp add: divide_right_mono)
  then have "round_mag fmt q \<le> of_int (n * 2 ^ nat (k - ?u)) * 2 powi ?u"
    using q unfolding e by (intro round_mag_grid_le)
  also have "\<dots> = y"
    by (simp only: e [symmetric]) simp
  finally show ?thesis .
next
  case False
  then have "y < 2 powi ilog 2 q"
    using below_grid(2) [OF y n k q] by simp
  also have "\<dots> \<le> q"
    using ilog2_bounds(1) [OF q] .
  finally show ?thesis
    using qy by simp
qed

lemma round_mag_ge_representable:
  fixes y :: rat
  assumes y: "y = of_int n * 2 powi k" and n: "0 < n" "n < 2 ^ precision fmt"
    and k: "min_exp fmt \<le> k" and q: "0 < q" and yq: "y \<le> q"
    and p: "0 < precision fmt"
  shows "y \<le> round_mag fmt q"
proof (cases "ulp_exp fmt q \<le> k")
  case True
  let ?u = "ulp_exp fmt q"
  have e: "y / 2 powi ?u = of_int (n * 2 ^ nat (k - ?u))"
    using y True by (rule scaled_integer)
  have "y / 2 powi ?u \<le> q / 2 powi ?u"
    using yq by (simp add: divide_right_mono)
  then have "of_int (n * 2 ^ nat (k - ?u)) * 2 powi ?u \<le> round_mag fmt q"
    using q unfolding e by (intro round_mag_grid_ge)
  moreover have "of_int (n * 2 ^ nat (k - ?u)) * 2 powi ?u = y"
    by (simp only: e [symmetric]) simp
  ultimately show ?thesis
    by simp
next
  case False
  let ?u = "ulp_exp fmt q"
  let ?L = "ilog 2 q"
  have u: "?u = ?L + 1 - int (precision fmt)" and yL: "y < 2 powi ?L"
    using below_grid [OF y n k q] False by simp_all
  have uL: "?u \<le> ?L"
    using u p by simp
  have split: "(2::rat) powi ?L = of_int (2 ^ nat (?L - ?u)) * 2 powi ?u"
    using uL by (rule powi_split)
  have "2 powi ?L / 2 powi ?u \<le> q / 2 powi ?u"
    using ilog2_bounds(1) [OF q] by (simp add: divide_right_mono)
  then have "of_int (2 ^ nat (?L - ?u)) \<le> q / 2 powi ?u"
    by (simp only: split) simp
  then have "of_int (2 ^ nat (?L - ?u)) * 2 powi ?u \<le> round_mag fmt q"
    using q by (intro round_mag_grid_ge)
  then have "2 powi ?L \<le> round_mag fmt q"
    by (simp only: split)
  with yL show ?thesis
    by simp
qed

section \<open>Properties of the \<^verbatim>\<open>%g\<close> conversion\<close>

lemma rhe_half: "\<bar>of_int (rhe r) - r\<bar> \<le> 1 / 2"
proof -
  define N where "N = \<lfloor>r\<rfloor>"
  define d where "d = r - of_int N"
  have d: "0 \<le> d" "d < 1"
    using floor_correct [of r] by (simp_all add: d_def N_def)
  have r: "r = of_int N + d"
    by (simp add: d_def)
  have "rhe r = (if d < 1 / 2 then N else if 1 / 2 < d then N + 1 else if even N then N else N + 1)"
    by (simp add: rhe_def Let_def N_def d_def)
  then have "(of_int (rhe r) :: rat) = of_int N \<and> d \<le> 1 / 2
      \<or> (of_int (rhe r) :: rat) = of_int N + 1 \<and> 1 / 2 \<le> d"
    by (auto split: if_splits)
  then show ?thesis
    using d unfolding r by (auto simp: abs_if)
qed

lemma sig_digits_rounds:
  assumes q: "0 < q" and sd: "sig_digits 6 q = (n, X)"
  shows "10 ^ 5 \<le> n \<and> n < 10 ^ 6 \<and> \<bar>of_int n * 10 powi (X - 5) - q\<bar> \<le> 10 powi (X - 5) / 2"
proof -
  define X0 where "X0 = ilog 10 q"
  define u :: rat where "u = 10 powi (X0 - 5)"
  define t where "t = q / u"
  define n0 where "n0 = rhe t"
  have upos: "0 < u"
    by (simp add: u_def)
  have b: "10 powi X0 \<le> q" "q < 10 powi (X0 + 1)"
    using ilog_bounds [of 10 q] q by (simp_all add: X0_def)
  have "(10::rat) powi X0 = of_int (10 ^ 5) * u"
    unfolding u_def by (simp add: power_int_diff)
  then have lo: "of_int (10 ^ 5) \<le> t"
    using b(1) upos by (simp add: t_def pos_le_divide_eq)
  have "(10::rat) powi (X0 + 1) = of_int (10 ^ 6) * u"
    unfolding u_def by (simp add: power_int_diff power_int_add)
  then have hi: "t \<le> of_int (10 ^ 6)"
    using b(2) upos by (simp add: t_def pos_divide_le_eq)
  have n5: "10 ^ 5 \<le> n0"
    unfolding n0_def using lo by (rule rhe_ge)
  have n6: "n0 \<le> 10 ^ 6"
    unfolding n0_def using hi by (rule rhe_le)
  have "\<bar>of_int n0 - t\<bar> \<le> 1 / 2"
    unfolding n0_def by (rule rhe_half)
  then have "\<bar>of_int n0 - t\<bar> * u \<le> 1 / 2 * u"
    using upos by (intro mult_right_mono) simp_all
  moreover have "(of_int n0 - t) * u = of_int n0 * u - q"
    using upos by (simp add: t_def left_diff_distrib)
  then have "\<bar>of_int n0 - t\<bar> * u = \<bar>of_int n0 * u - q\<bar>"
    using upos abs_mult_pos [of u "of_int n0 - t"] by simp
  ultimately have err: "\<bar>of_int n0 * u - q\<bar> \<le> u / 2"
    by simp
  have sd': "sig_digits 6 q = (if n0 = 10 ^ 6 then (10 ^ 5, X0 + 1) else (n0, X0))"
    by (simp add: sig_digits_def Let_def X0_def n0_def t_def u_def)
  show ?thesis
  proof (cases "n0 = 10 ^ 6")
    case True
    then have nX: "n = 10 ^ 5" "X = X0 + 1"
      using sd sd' by simp_all
    have u10: "(10::rat) powi (X - 5) = 10 * u"
      unfolding nX u_def by (simp add: power_int_diff power_int_add)
    have "of_int n * (10 * u) = of_int n0 * u"
      using True nX by simp
    then have "\<bar>of_int n * (10 * u) - q\<bar> \<le> u / 2"
      using err by (simp only:)
    also have "u / 2 \<le> 10 * u / 2"
      using upos by simp
    finally show ?thesis
      using nX(1) unfolding u10 by simp
  next
    case False
    then have nX: "n = n0" "X = X0"
      using sd sd' by simp_all
    show ?thesis
      using err n5 n6 False unfolding nX u_def by simp
  qed
qed

lemma digit_not_special:
  assumes "c \<in> digits"
  shows "c \<noteq> CHR ''.''" "c \<noteq> CHR ''e''" "c \<noteq> CHR ''-''" "c \<noteq> CHR ''+''"
  using assms by (auto simp: digits_def)

lemma digits_val_append:
  "digits_val (xs @ ys) = digits_val xs * 10 ^ length ys + digits_val ys"
proof (induction ys rule: rev_induct)
  case Nil
  show ?case
    by (simp add: digits_val_def)
next
  case (snoc c ys)
  have "digits_val (xs @ ys @ [c]) = 10 * digits_val (xs @ ys) + digit_val c"
    using digits_val_snoc [of "xs @ ys" c] by simp
  then show ?case
    using snoc.IH digits_val_snoc [of ys c] by (simp add: algebra_simps)
qed

lemma digits_val_zeros: "digits_val (replicate j CHR ''0'') = 0"
  by (induction j) (simp_all add: digits_val_def digit_val_def)

lemma digits_val_trailing_zeros:
  "digits_val (xs @ replicate j CHR ''0'') = digits_val xs * 10 ^ j"
  by (simp add: digits_val_append digits_val_zeros)

lemma digits_val_leading_zeros:
  "digits_val (replicate j CHR ''0'' @ xs) = digits_val xs"
  by (simp add: digits_val_append digits_val_zeros)

lemma strip_zeros_decomp: "\<exists>j. s = strip_zeros s @ replicate j CHR ''0''"
proof -
  let ?P = "\<lambda>c. c = CHR ''0''"
  have "takeWhile ?P (rev s) = replicate (length (takeWhile ?P (rev s))) CHR ''0''"
    by (rule replicate_length_same [symmetric]) (auto dest: set_takeWhileD)
  moreover have "s = rev (dropWhile ?P (rev s)) @ rev (takeWhile ?P (rev s))"
    by (metis rev_append rev_rev_ident takeWhile_dropWhile_id)
  ultimately have "s = strip_zeros s @ replicate (length (takeWhile ?P (rev s))) CHR ''0''"
    by (metis rev_replicate strip_zeros_def)
  then show ?thesis ..
qed

lemma strip_zeros_last: "strip_zeros s \<noteq> [] \<Longrightarrow> last (strip_zeros s) \<noteq> CHR ''0''"
  unfolding strip_zeros_def
  by (metis (mono_tags, lifting) hd_dropWhile last_rev rev_is_Nil_conv)

lemma div10_less: "f < 10 * K \<Longrightarrow> f div 10 < (K::int)"
  by arith

lemma div10_le: "10 * K \<le> n \<Longrightarrow> (K::int) \<le> n div 10"
  by arith

lemma length_dec_le: "0 < k \<Longrightarrow> f < 10 ^ k \<Longrightarrow> length (dec f) \<le> k"
proof (induction k arbitrary: f)
  case 0
  then show ?case
    by simp
next
  case (Suc k)
  show ?case
  proof (cases "f < 10")
    case True
    then show ?thesis
      by (subst dec.simps) simp
  next
    case False
    then have k: "0 < k"
      using Suc.prems(2) by (cases k) simp_all
    have "f div 10 < 10 ^ k"
      using Suc.prems(2) by (intro div10_less) simp
    then have "length (dec (f div 10)) \<le> k"
      using k by (rule Suc.IH [rotated])
    then show ?thesis
      using False by (subst dec.simps) simp
  qed
qed

lemma length_dec_eq: "10 ^ k \<le> n \<Longrightarrow> n < 10 ^ Suc k \<Longrightarrow> length (dec n) = Suc k"
proof (induction k arbitrary: n)
  case 0
  then show ?case
    by (subst dec.simps) simp
next
  case (Suc k)
  have "(10::int) \<le> 10 ^ Suc k"
    by simp
  then have n10: "\<not> n < 10"
    using Suc.prems(1) by linarith
  have "10 ^ k \<le> n div 10"
    using Suc.prems(1) by (intro div10_le) simp
  moreover have "n div 10 < 10 ^ Suc k"
    using Suc.prems(2) by (intro div10_less) simp
  ultimately have "length (dec (n div 10)) = Suc k"
    by (rule Suc.IH)
  then show ?case
    using n10 by (subst dec.simps) simp
qed


lemma takeWhile_no_sep:
  assumes "c \<notin> set xs"
  shows "takeWhile (\<lambda>d. d \<noteq> c) (xs @ c # r) = xs"
    and "dropWhile (\<lambda>d. d \<noteq> c) (xs @ c # r) = c # r"
    and "takeWhile (\<lambda>d. d \<noteq> c) xs = xs"
    and "dropWhile (\<lambda>d. d \<noteq> c) xs = []"
  using assms by (induction xs) auto

lemma strip_zeros_digits: "set F \<subseteq> digits \<Longrightarrow> set (strip_zeros F) \<subseteq> digits"
  using strip_zeros_subset [of F] by (rule subset_trans)

text \<open>The mantissa of a \<^verbatim>\<open>%g\<close> text: integral digits, and the fraction without its trailing zeros.\<close>

lemma mantissa_form:
  assumes "set F \<subseteq> digits"
  shows "strip_point (strip_zeros (I @ CHR ''.'' # F))
    = (if strip_zeros F = [] then I else I @ CHR ''.'' # strip_zeros F)"
proof (cases "strip_zeros F = []")
  case True
  then show ?thesis
    by (simp add: strip_zeros_point strip_point_def)
next
  case False
  then have "last (strip_zeros F) \<in> digits"
    using strip_zeros_digits [OF assms] last_in_set [of "strip_zeros F"] by blast
  then have "last (strip_zeros F) \<noteq> CHR ''.''"
    by (rule digit_not_special)
  then show ?thesis
    using False by (simp add: strip_zeros_point strip_point_def)
qed

lemma mantissa_chars:
  assumes "set I \<subseteq> digits" and "set F \<subseteq> digits"
  shows "set (strip_point (strip_zeros (I @ CHR ''.'' # F))) \<subseteq> insert CHR ''.'' digits"
  using assms strip_zeros_digits [OF assms(2)] by (auto simp: mantissa_form)

lemma mantissa_no_e:
  assumes "set I \<subseteq> digits" and "set F \<subseteq> digits"
  shows "CHR ''e'' \<notin> set (strip_point (strip_zeros (I @ CHR ''.'' # F)))"
proof
  assume "CHR ''e'' \<in> set (strip_point (strip_zeros (I @ CHR ''.'' # F)))"
  then have "CHR ''e'' \<in> insert CHR ''.'' digits"
    using mantissa_chars [OF assms] by blast
  then have "CHR ''e'' \<in> digits"
    by simp
  then show False
    using digit_not_special(2) by blast
qed

lemma mantissa_last:
  assumes "set I \<subseteq> digits" and "I \<noteq> []" and "set F \<subseteq> digits"
  defines "M \<equiv> strip_point (strip_zeros (I @ CHR ''.'' # F))"
  shows "M \<noteq> []" and "hd M = hd I" and "last M \<noteq> CHR ''.''"
    and "CHR ''.'' \<in> set M \<Longrightarrow> last M \<noteq> CHR ''0''"
proof -
  have M: "M = (if strip_zeros F = [] then I else I @ CHR ''.'' # strip_zeros F)"
    unfolding M_def using assms(3) by (rule mantissa_form)
  show "M \<noteq> []"
    using assms(2) by (simp add: M)
  show "hd M = hd I"
    using assms(2) by (simp add: M)
  have lI: "last I \<noteq> CHR ''.''"
    using assms(1,2) last_in_set [of I] digit_not_special(1) by blast
  have lF: "last (strip_zeros F) \<noteq> CHR ''.''" if "strip_zeros F \<noteq> []"
    using that strip_zeros_digits [OF assms(3)] last_in_set [of "strip_zeros F"]
      digit_not_special(1) by blast
  show "last M \<noteq> CHR ''.''"
    using lI lF by (simp add: M)
  have nI: "CHR ''.'' \<notin> set I"
    using assms(1) digit_not_special(1) by blast
  show "last M \<noteq> CHR ''0''" if "CHR ''.'' \<in> set M"
  proof (cases "strip_zeros F = []")
    case True
    then show ?thesis
      using that nI by (simp add: M)
  next
    case False
    then show ?thesis
      using strip_zeros_last [OF False] by (simp add: M)
  qed
qed

lemma mantissa_parts:
  assumes "set I \<subseteq> digits" and "set F \<subseteq> digits"
  defines "M \<equiv> strip_point (strip_zeros (I @ CHR ''.'' # F))"
  shows "takeWhile (\<lambda>c. c \<noteq> CHR ''.'') M = I"
    and "drop 1 (dropWhile (\<lambda>c. c \<noteq> CHR ''.'') M) = strip_zeros F"
proof -
  have M: "M = (if strip_zeros F = [] then I else I @ CHR ''.'' # strip_zeros F)"
    unfolding M_def using assms(2) by (rule mantissa_form)
  have nI: "CHR ''.'' \<notin> set I"
    using assms(1) digit_not_special(1) by blast
  show "takeWhile (\<lambda>c. c \<noteq> CHR ''.'') M = I"
    using nI by (simp add: M takeWhile_no_sep)
  show "drop 1 (dropWhile (\<lambda>c. c \<noteq> CHR ''.'') M) = strip_zeros F"
    using nI by (simp add: M takeWhile_no_sep)
qed

lemma mantissa_value:
  "(of_int (digits_val (I @ strip_zeros F)) :: rat) / 10 ^ length (strip_zeros F)
    = of_int (digits_val (I @ F)) / 10 ^ length F"
proof -
  obtain j where j: "F = strip_zeros F @ replicate j CHR ''0''"
    using strip_zeros_decomp [of F] ..
  define G where "G = strip_zeros F"
  have F: "F = G @ replicate j CHR ''0''"
    using j by (simp add: G_def)
  have "digits_val (I @ F) = digits_val (I @ G) * 10 ^ j"
    using digits_val_trailing_zeros [of "I @ G" j] by (simp add: F)
  moreover have "length F = length G + j"
    by (subst F) simp
  ultimately have "(of_int (digits_val (I @ F)) :: rat) / 10 ^ length F
      = of_int (digits_val (I @ G)) * 10 ^ j / (10 ^ length G * 10 ^ j)"
    by (simp add: power_add)
  also have "\<dots> = of_int (digits_val (I @ G)) / 10 ^ length G"
    by simp
  finally show ?thesis
    by (simp add: G_def)
qed

lemma unsigned_decimal_mantissa:
  assumes "set I \<subseteq> digits" and "set F \<subseteq> digits"
  defines "M \<equiv> strip_point (strip_zeros (I @ CHR ''.'' # F))"
  shows "unsigned_decimal M = of_int (digits_val (I @ F)) / 10 ^ length F"
    and "unsigned_decimal (M @ CHR ''e'' # E)
      = of_int (digits_val (I @ F)) / 10 ^ length F * 10 powi signed_val E"
proof -
  have ne: "CHR ''e'' \<notin> set M"
    unfolding M_def using assms(1,2) by (rule mantissa_no_e)
  have parts: "takeWhile (\<lambda>c. c \<noteq> CHR ''.'') M = I"
    "drop 1 (dropWhile (\<lambda>c. c \<noteq> CHR ''.'') M) = strip_zeros F"
    unfolding M_def using assms(1,2) by (rule mantissa_parts)+
  have "unsigned_decimal M
      = of_int (digits_val (I @ strip_zeros F)) / 10 ^ length (strip_zeros F) * 10 powi signed_val []"
    by (simp only: unsigned_decimal_def Let_def takeWhile_no_sep(3,4) [OF ne] parts drop_Nil)
  then show "unsigned_decimal M = of_int (digits_val (I @ F)) / 10 ^ length F"
    by (simp add: mantissa_value signed_val_def)
  have "unsigned_decimal (M @ CHR ''e'' # E)
      = of_int (digits_val (I @ strip_zeros F)) / 10 ^ length (strip_zeros F)
        * 10 powi signed_val (drop 1 (CHR ''e'' # E))"
    by (simp only: unsigned_decimal_def Let_def takeWhile_no_sep(1,2) [OF ne] parts)
  then show "unsigned_decimal (M @ CHR ''e'' # E)
      = of_int (digits_val (I @ F)) / 10 ^ length F * 10 powi signed_val E"
    by (simp add: mantissa_value)
qed

lemma signed_val_exp_digits: "signed_val (exp_digits X) = X"
proof -
  have z: "digits_val (CHR ''0'' # dec a) = a" if "0 \<le> a" for a
    using digits_val_leading_zeros [of 1 "dec a"] digits_val_dec [OF that] by simp
  have d: "digits_val (if \<bar>X\<bar> < 10 then CHR ''0'' # dec \<bar>X\<bar> else dec \<bar>X\<bar>) = \<bar>X\<bar>"
    using z [of "\<bar>X\<bar>"] digits_val_dec [of "\<bar>X\<bar>"] by simp
  show ?thesis
    using d by (simp add: exp_digits_def signed_val_def)
qed

lemma frac_digits_props:
  assumes "0 \<le> f" and "f < 10 ^ k"
  shows "length (frac_digits k f) = k" and "digits_val (frac_digits k f) = f"
proof -
  show "length (frac_digits k f) = k"
  proof (cases "k = 0")
    case True
    then show ?thesis
      by (simp add: frac_digits_def)
  next
    case False
    then have "length (dec f) \<le> k"
      using assms(2) by (intro length_dec_le) simp_all
    then show ?thesis
      using False by (simp add: frac_digits_def)
  qed
  show "digits_val (frac_digits k f) = f"
  proof (cases "k = 0")
    case True
    then have "f = 0"
      using assms by simp
    then show ?thesis
      using True by (simp add: frac_digits_def digits_val_def)
  next
    case False
    then show ?thesis
      using digits_val_leading_zeros [of _ "dec f"] digits_val_dec [OF assms(1)]
      by (simp add: frac_digits_def)
  qed
qed


text \<open>
  The two shapes of a \<^verbatim>\<open>%g\<close> text for a positive magnitude: integral digits \<open>I\<close> and
  fraction digits \<open>F\<close> that together spell the six significant digits \<open>n\<close>.
\<close>

lemma fmt_g_mag_shape:
  assumes q: "0 < q" and sd: "sig_digits 6 q = (n, X)"
  shows "\<exists>I F. set I \<subseteq> digits \<and> I \<noteq> [] \<and> set F \<subseteq> digits \<and> digits_val (I @ F) = n
          \<and> (if X < - 4 \<or> 6 \<le> X
              then fmt_g_mag q = strip_point (strip_zeros (I @ CHR ''.'' # F)) @ CHR ''e'' # exp_digits X
                   \<and> length F = 5
              else fmt_g_mag q = strip_point (strip_zeros (I @ CHR ''.'' # F))
                   \<and> int (length F) = 5 - X)"
proof -
  have n: "10 ^ 5 \<le> n" "n < 10 ^ 6"
    using sig_digits_rounds [OF q sd] by simp_all
  have n0: "0 \<le> n"
    using n(1) by simp
  show ?thesis
  proof (cases "X < - 4 \<or> 6 \<le> X")
    case True
    obtain c cs where dn: "dec n = c # cs"
      using dec_not_Nil [of n] by (cases "dec n") auto
    have "length (dec n) = Suc 5"
      using n by (intro length_dec_eq) simp_all
    then have len: "length cs = 5"
      by (simp add: dn)
    have set: "set [c] \<subseteq> digits" "set cs \<subseteq> digits"
      using dec_digits [of n] by (simp_all add: dn)
    have val: "digits_val ([c] @ cs) = n"
      using digits_val_dec [OF n0] by (simp add: dn)
    have "fmt_g_mag q = strip_point (strip_zeros ([c] @ CHR ''.'' # cs)) @ CHR ''e'' # exp_digits X"
      using q True by (simp add: fmt_g_mag_def sd dn)
    then show ?thesis
      using True set val len by (intro exI [of _ "[c]"] exI [of _ cs]) simp
  next
    case False
    define k where "k = nat (5 - X)"
    define I where "I = dec (n div 10 ^ k)"
    define F where "F = frac_digits k (n mod 10 ^ k)"
    have k: "int k = 5 - X"
      using False by (simp add: k_def)
    have f: "0 \<le> n mod 10 ^ k" "n mod 10 ^ k < 10 ^ k"
      by simp_all
    have lenF: "length F = k" and valF: "digits_val F = n mod 10 ^ k"
      unfolding F_def using f by (rule frac_digits_props)+
    have "0 \<le> n div 10 ^ k"
      using n0 by (simp add: pos_imp_zdiv_nonneg_iff)
    then have valI: "digits_val I = n div 10 ^ k"
      unfolding I_def by (rule digits_val_dec)
    have "digits_val (I @ F) = n div 10 ^ k * 10 ^ k + n mod 10 ^ k"
      by (simp only: digits_val_append valI valF lenF)
    then have val: "digits_val (I @ F) = n"
      by (simp only: div_mult_mod_eq)
    have set: "set I \<subseteq> digits" "I \<noteq> []" "set F \<subseteq> digits"
      unfolding I_def F_def by (rule dec_digits dec_not_Nil frac_digits_subset)+
    have "fmt_g_mag q = strip_point (strip_zeros (I @ CHR ''.'' # F))"
      using q False by (simp add: fmt_g_mag_def sd Let_def k_def I_def F_def)
    then show ?thesis
      using False set val lenF k by (intro exI [of _ I] exI [of _ F]) simp
  qed
qed

lemma fmt_g_mag_value:
  assumes q: "0 < q" and sd: "sig_digits 6 q = (n, X)"
  shows "unsigned_decimal (fmt_g_mag q) = of_int n * 10 powi (X - 5)"
proof -
  obtain I F where IF: "set I \<subseteq> digits" "set F \<subseteq> digits" "digits_val (I @ F) = n"
    and shape: "if X < - 4 \<or> 6 \<le> X
      then fmt_g_mag q = strip_point (strip_zeros (I @ CHR ''.'' # F)) @ CHR ''e'' # exp_digits X
           \<and> length F = 5
      else fmt_g_mag q = strip_point (strip_zeros (I @ CHR ''.'' # F))
           \<and> int (length F) = 5 - X"
    using fmt_g_mag_shape [OF q sd] by blast
  show ?thesis
  proof (cases "X < - 4 \<or> 6 \<le> X")
    case True
    then have "unsigned_decimal (fmt_g_mag q) = of_int n / 10 ^ 5 * 10 powi X"
      using shape unsigned_decimal_mantissa(2) [OF IF(1,2), of "exp_digits X"] IF(3)
      by (simp add: signed_val_exp_digits)
    also have "\<dots> = of_int n * 10 powi (X - 5)"
      by (simp add: power_int_diff)
    finally show ?thesis .
  next
    case False
    then have len: "X - 5 = - int (length F)"
      using shape by simp
    have "unsigned_decimal (fmt_g_mag q) = of_int n / 10 ^ length F"
      using False shape unsigned_decimal_mantissa(1) [OF IF(1,2)] IF(3) by simp
    also have "\<dots> = of_int n * 10 powi (X - 5)"
      unfolding len by (simp add: power_int_minus divide_inverse)
    finally show ?thesis .
  qed
qed

lemma fmt_g_mag_style:
  assumes q: "0 < q" and sd: "sig_digits 6 q = (n, X)"
  defines "M \<equiv> takeWhile (\<lambda>c. c \<noteq> CHR ''e'') (fmt_g_mag q)"
  shows "(CHR ''e'' \<in> set (fmt_g_mag q)) = (X < - 4 \<or> 6 \<le> X)"
    and "M \<noteq> []" and "hd M \<in> digits" and "hd (fmt_g_mag q) \<in> digits"
    and "last M \<noteq> CHR ''.''" and "CHR ''.'' \<in> set M \<Longrightarrow> last M \<noteq> CHR ''0''"
proof -
  obtain I F where IF: "set I \<subseteq> digits" "I \<noteq> []" "set F \<subseteq> digits"
    and shape: "if X < - 4 \<or> 6 \<le> X
      then fmt_g_mag q = strip_point (strip_zeros (I @ CHR ''.'' # F)) @ CHR ''e'' # exp_digits X
           \<and> length F = 5
      else fmt_g_mag q = strip_point (strip_zeros (I @ CHR ''.'' # F))
           \<and> int (length F) = 5 - X"
    using fmt_g_mag_shape [OF q sd] by blast
  define N where "N = strip_point (strip_zeros (I @ CHR ''.'' # F))"
  have ne: "CHR ''e'' \<notin> set N"
    unfolding N_def using IF(1,3) by (rule mantissa_no_e)
  have N: "N \<noteq> []" "hd N = hd I" "last N \<noteq> CHR ''.''"
    "CHR ''.'' \<in> set N \<Longrightarrow> last N \<noteq> CHR ''0''"
    unfolding N_def using mantissa_last [OF IF] by blast+
  have hdI: "hd I \<in> digits"
    using IF(1,2) hd_in_set [of I] by blast
  have g: "fmt_g_mag q = (if X < - 4 \<or> 6 \<le> X then N @ CHR ''e'' # exp_digits X else N)"
    using shape by (simp add: N_def split: if_splits)
  have M: "M = N"
    unfolding M_def g using ne by (simp add: takeWhile_no_sep)
  show "(CHR ''e'' \<in> set (fmt_g_mag q)) = (X < - 4 \<or> 6 \<le> X)"
    unfolding g using ne by simp
  show "M \<noteq> []" "hd M \<in> digits" "last M \<noteq> CHR ''.''"
    using N hdI by (simp_all add: M)
  show "hd (fmt_g_mag q) \<in> digits"
    unfolding g using N hdI by simp
  show "last M \<noteq> CHR ''0''" if "CHR ''.'' \<in> set M"
    using that N(4) by (simp add: M)
qed


lemma decimal_value_fmt_g:
  assumes q: "0 < m" and sd: "sig_digits 6 m = (n, X)"
  shows "decimal_value (fmt_g (Finite s m)) = fp_val (Finite s (of_int n * 10 powi (X - 5)))"
proof -
  obtain c cs where g: "fmt_g_mag m = c # cs"
    using fmt_g_mag_not_empty [of m] by (cases "fmt_g_mag m") auto
  have "c \<in> digits"
    using fmt_g_mag_style(4) [OF q sd] by (simp add: g)
  then have c: "c \<noteq> CHR ''-''"
    by (rule digit_not_special)
  have "decimal_value (fmt_g_mag m) = unsigned_decimal (fmt_g_mag m)"
    using c by (simp add: decimal_value_def g)
  moreover have "decimal_value (CHR ''-'' # fmt_g_mag m) = - unsigned_decimal (fmt_g_mag m)"
    by (simp add: decimal_value_def)
  ultimately show ?thesis
    using fmt_g_mag_value [OF q sd] by simp
qed

lemma fmt_g_mantissa:
  fixes s :: bool
  assumes q: "0 < m" and sd: "sig_digits 6 m = (n, X)"
  defines "M \<equiv> takeWhile (\<lambda>c. c \<noteq> CHR ''e'') (fmt_g (Finite s m))"
  shows "(CHR ''e'' \<in> set (fmt_g (Finite s m))) = (X < - 4 \<or> 6 \<le> X)"
    and "M \<noteq> []" and "last M \<noteq> CHR ''.''" and "CHR ''.'' \<in> set M \<longrightarrow> last M \<noteq> CHR ''0''"
proof -
  define N where "N = takeWhile (\<lambda>c. c \<noteq> CHR ''e'') (fmt_g_mag m)"
  have N: "N \<noteq> []" "last N \<noteq> CHR ''.''" "CHR ''.'' \<in> set N \<Longrightarrow> last N \<noteq> CHR ''0''"
    unfolding N_def using fmt_g_mag_style(2,5,6) [OF q sd] by blast+
  have M: "M = (if s then CHR ''-'' # N else N)"
    by (simp add: M_def N_def)
  show "(CHR ''e'' \<in> set (fmt_g (Finite s m))) = (X < - 4 \<or> 6 \<le> X)"
    using fmt_g_mag_style(1) [OF q sd] by simp
  show "M \<noteq> []" "last M \<noteq> CHR ''.''"
    using N(1,2) by (simp_all add: M)
  show "CHR ''.'' \<in> set M \<longrightarrow> last M \<noteq> CHR ''0''"
    using N(1,3) by (simp add: M)
qed

lemma fp_of_rat_signed:
  assumes "0 < v"
  shows "fp_of_rat fmt (fp_val (Finite s v)) = fp_round fmt s v"
  using assms by (simp add: fp_of_rat_def)

lemma fp_round_eq_Finite:
  "(fp_round fmt s v = Finite s m) = (round_mag fmt v = m \<and> m \<le> max_finite fmt)"
  by (auto simp: fp_round_def Let_def)

text \<open>
  C4.  For every \<^verbatim>\<open>double\<close> \<open>v\<close>, \<open>writef(v)\<close> appends to the standard output the \<^verbatim>\<open>%g\<close>
  conversion of \<open>v\<close> and nothing else.  The text is never empty and is written with
  digits, the point, \<open>e\<close>, the signs and the letters of \<open>inf\<close> and \<open>nan\<close> only, so it has
  no separator, neither inside nor at its end.  For a finite \<open>v\<close> other than zero, with
  \<open>n\<close> the six significant digits of its magnitude and \<open>X\<close> their decimal exponent: read
  back as a decimal numeral the text is \<open>n * 10 ^ (X - 5)\<close> with the sign of \<open>v\<close>, which
  is within half a unit of the sixth digit of \<open>v\<close>; the text is in exponent style (it has
  an \<open>e\<close>) exactly when \<open>X < -4\<close> or \<open>6 \<le> X\<close>, in fixed style otherwise; its mantissa
  ends neither with the point nor, after a point, with a zero; and it reads back as \<open>v\<close>
  exactly when \<open>v\<close> is the \<^verbatim>\<open>double\<close> nearest to that six-digit number.  A zero prints
  as \<open>0\<close> or \<open>-0\<close>, an infinity as \<open>inf\<close> or \<open>-inf\<close>, a NaN as \<open>nan\<close> or \<open>-nan\<close>;
  \<open>writef(3.14)\<close> prints \<open>3.14\<close> and not \<open>3.140000\<close>.
\<close>

theorem writef_prints_general_format:
  "writef x out = Inr (out @ fmt_g x)
   \<and> fmt_g x \<noteq> []
   \<and> set (fmt_g x) \<subseteq> set ''0123456789.e+-infa''
   \<and> (0 < m \<longrightarrow>
        (case sig_digits 6 m of
           (n, X) \<Rightarrow> 10 ^ 5 \<le> n \<and> n < 10 ^ 6
             \<and> decimal_value (fmt_g (Finite s m)) = fp_val (Finite s (of_int n * 10 powi (X - 5)))
             \<and> \<bar>decimal_value (fmt_g (Finite s m)) - fp_val (Finite s m)\<bar> \<le> 10 powi (X - 5) / 2
             \<and> (CHR ''e'' \<in> set (fmt_g (Finite s m))) = (X < - 4 \<or> 6 \<le> X)
             \<and> (let M = takeWhile (\<lambda>c. c \<noteq> CHR ''e'') (fmt_g (Finite s m))
                in M \<noteq> [] \<and> last M \<noteq> CHR ''.'' \<and> (CHR ''.'' \<in> set M \<longrightarrow> last M \<noteq> CHR ''0''))
             \<and> (fp_of_rat binary64 (decimal_value (fmt_g (Finite s m))) = Finite s m)
                 = (round_mag binary64 (of_int n * 10 powi (X - 5)) = m \<and> m \<le> max_finite binary64)))
   \<and> fmt_g (Finite s 0) = (if s then ''-0'' else ''0'')
   \<and> fmt_g (Infinite s) = (if s then ''-inf'' else ''inf'')
   \<and> fmt_g (NaN s) = (if s then ''-nan'' else ''nan'')
   \<and> writef (fp_of_rat binary64 (314 / 100)) [] = Inr ''3.14''"
proof -
  have a: "writef (fp_of_rat binary64 (314 / 100)) [] = Inr ''3.14''"
    by code_simp
  have b: "writef x out = Inr (out @ fmt_g x)"
    by (simp add: writef_def printf_def)
  have c: "set (fmt_g x) \<subseteq> set ''0123456789.e+-infa''"
    using fmt_g_chars [of x] unfolding g_chars_def .
  have d: "fmt_g (Finite s 0) = (if s then ''-0'' else ''0'')"
    by (simp add: fmt_g_mag_def)
  have e: "case sig_digits 6 m of
      (n, X) \<Rightarrow> 10 ^ 5 \<le> n \<and> n < 10 ^ 6
        \<and> decimal_value (fmt_g (Finite s m)) = fp_val (Finite s (of_int n * 10 powi (X - 5)))
        \<and> \<bar>decimal_value (fmt_g (Finite s m)) - fp_val (Finite s m)\<bar> \<le> 10 powi (X - 5) / 2
        \<and> (CHR ''e'' \<in> set (fmt_g (Finite s m))) = (X < - 4 \<or> 6 \<le> X)
        \<and> (let M = takeWhile (\<lambda>c. c \<noteq> CHR ''e'') (fmt_g (Finite s m))
           in M \<noteq> [] \<and> last M \<noteq> CHR ''.'' \<and> (CHR ''.'' \<in> set M \<longrightarrow> last M \<noteq> CHR ''0''))
        \<and> (fp_of_rat binary64 (decimal_value (fmt_g (Finite s m))) = Finite s m)
            = (round_mag binary64 (of_int n * 10 powi (X - 5)) = m \<and> m \<le> max_finite binary64)"
    if m: "0 < m"
  proof -
    obtain n X where sd: "sig_digits 6 m = (n, X)"
      by (cases "sig_digits 6 m")
    define v :: rat where "v = of_int n * 10 powi (X - 5)"
    have r: "10 ^ 5 \<le> n" "n < 10 ^ 6" "\<bar>v - m\<bar> \<le> 10 powi (X - 5) / 2"
      using sig_digits_rounds [OF m sd] by (simp_all add: v_def)
    have v: "0 < v"
      using r(1) by (simp add: v_def)
    have dv: "decimal_value (fmt_g (Finite s m)) = fp_val (Finite s v)"
      unfolding v_def using m sd by (rule decimal_value_fmt_g)
    have err: "\<bar>fp_val (Finite s v) - fp_val (Finite s m)\<bar> \<le> 10 powi (X - 5) / 2"
      using r(3) by (cases s) (simp_all add: abs_minus_commute)
    have rt: "(fp_of_rat binary64 (fp_val (Finite s v)) = Finite s m)
        = (round_mag binary64 v = m \<and> m \<le> max_finite binary64)"
      by (simp only: fp_of_rat_signed [OF v] fp_round_eq_Finite)
    have mant: "let M = takeWhile (\<lambda>c. c \<noteq> CHR ''e'') (fmt_g (Finite s m))
        in M \<noteq> [] \<and> last M \<noteq> CHR ''.'' \<and> (CHR ''.'' \<in> set M \<longrightarrow> last M \<noteq> CHR ''0'')"
      unfolding Let_def using fmt_g_mantissa(2,3,4) [OF m sd, of s] by blast
    have style: "(CHR ''e'' \<in> set (fmt_g (Finite s m))) = (X < - 4 \<or> 6 \<le> X)"
      using m sd by (rule fmt_g_mantissa(1))
    show ?thesis
      unfolding sd prod.case dv using r(1,2) err style mant rt unfolding v_def dv by blast
  qed
  show ?thesis
    using a b c d e fmt_g_not_empty [of x] by (simp only: fmt_g.simps) blast
qed

theorem writef_prints_general_format_witness:
  "(0::rat) < 1234567
   \<and> sig_digits 6 1234567 = (123457, 6)
   \<and> decimal_value (fmt_g (Finite True 1234567)) = - 1234570
   \<and> \<bar>decimal_value (fmt_g (Finite True 1234567)) - (- 1234567)\<bar> \<le> 5
   \<and> CHR ''e'' \<in> set (fmt_g (Finite True 1234567))
   \<and> fp_of_rat binary64 (decimal_value (fmt_g (Finite True 1234567))) \<noteq> Finite True 1234567"
proof -
  have ev: "sig_digits 6 1234567 = (123457, 6) \<and> round_mag binary64 1234570 = 1234570"
    by code_simp
  have sd: "sig_digits 6 1234567 = (123457, 6)"
    using ev by (rule conjunct1)
  have pos: "(0::rat) < 1234567"
    by simp
  have "case sig_digits 6 1234567 of
      (n, X) \<Rightarrow> 10 ^ 5 \<le> n \<and> n < 10 ^ 6
        \<and> decimal_value (fmt_g (Finite True 1234567)) = fp_val (Finite True (of_int n * 10 powi (X - 5)))
        \<and> \<bar>decimal_value (fmt_g (Finite True 1234567)) - fp_val (Finite True 1234567)\<bar> \<le> 10 powi (X - 5) / 2
        \<and> (CHR ''e'' \<in> set (fmt_g (Finite True 1234567))) = (X < - 4 \<or> 6 \<le> X)
        \<and> (let M = takeWhile (\<lambda>c. c \<noteq> CHR ''e'') (fmt_g (Finite True 1234567))
           in M \<noteq> [] \<and> last M \<noteq> CHR ''.'' \<and> (CHR ''.'' \<in> set M \<longrightarrow> last M \<noteq> CHR ''0''))
        \<and> (fp_of_rat binary64 (decimal_value (fmt_g (Finite True 1234567))) = Finite True 1234567)
            = (round_mag binary64 (of_int n * 10 powi (X - 5)) = 1234567 \<and> 1234567 \<le> max_finite binary64)"
    using conjunct2 [OF conjunct2 [OF conjunct2 [OF writef_prints_general_format [of _ _ 1234567 True]]]] pos
    by (elim conjE impE)
  then have c: "decimal_value (fmt_g (Finite True 1234567)) = fp_val (Finite True (of_int 123457 * 10 powi (6 - 5)))
    \<and> \<bar>decimal_value (fmt_g (Finite True 1234567)) - fp_val (Finite True 1234567)\<bar> \<le> 10 powi (6 - 5) / 2
    \<and> (CHR ''e'' \<in> set (fmt_g (Finite True 1234567))) = ((6::int) < - 4 \<or> (6::int) \<le> 6)
    \<and> (fp_of_rat binary64 (decimal_value (fmt_g (Finite True 1234567))) = Finite True 1234567)
       = (round_mag binary64 (of_int 123457 * 10 powi (6 - 5)) = 1234567 \<and> 1234567 \<le> max_finite binary64)"
    unfolding sd prod.case by (elim conjE) (intro conjI)
  have v: "(of_int 123457 * 10 powi (6 - 5) :: rat) = 1234570"
    by simp
  have f1: "decimal_value (fmt_g (Finite True 1234567)) = - 1234570"
    using conjunct1 [OF c] by (simp only: v fp_val.simps if_True)
  have "\<bar>decimal_value (fmt_g (Finite True 1234567)) - fp_val (Finite True 1234567)\<bar> \<le> 10 powi (6 - 5) / 2"
    using c by (elim conjE)
  then have f2: "\<bar>decimal_value (fmt_g (Finite True 1234567)) - (- 1234567)\<bar> \<le> 5"
    by (simp only: f1)
  have "(CHR ''e'' \<in> set (fmt_g (Finite True 1234567))) = ((6::int) < - 4 \<or> (6::int) \<le> 6)"
    using c by (elim conjE)
  then have f3: "CHR ''e'' \<in> set (fmt_g (Finite True 1234567))"
    by simp
  have rm: "round_mag binary64 (of_int 123457 * 10 powi (6 - 5)) \<noteq> 1234567"
    using conjunct2 [OF ev] by (simp only: v; simp)
  have "(fp_of_rat binary64 (decimal_value (fmt_g (Finite True 1234567))) = Finite True 1234567)
       = (round_mag binary64 (of_int 123457 * 10 powi (6 - 5)) = 1234567 \<and> 1234567 \<le> max_finite binary64)"
    using c by (elim conjE)
  then have f4: "fp_of_rat binary64 (decimal_value (fmt_g (Finite True 1234567))) \<noteq> Finite True 1234567"
    using rm by simp
  show ?thesis
    using pos sd f1 f2 f3 f4 by (intro conjI)
qed

text \<open>
  The text is not a round-trip rendering: \<open>writef(1234567.0)\<close> prints \<open>1.23457e+06\<close>,
  which denotes 1234570 and reads back as another \<^verbatim>\<open>double\<close>.
\<close>

theorem writef_round_trip_counterexample:
  "writef (Finite False 1234567) [] = Inr ''1.23457e+06''
   \<and> is_fp binary64 (Finite False 1234567)
   \<and> decimal_value ''1.23457e+06'' = 1234570
   \<and> fp_of_rat binary64 (decimal_value ''1.23457e+06'') \<noteq> Finite False 1234567"
  by code_simp

section \<open>Properties of the rounding helper\<close>

lemma round_mag_nonneg: "0 \<le> q \<Longrightarrow> 0 \<le> round_mag fmt q"
proof -
  assume q: "0 \<le> q"
  have "0 \<le> rhe r" if "0 \<le> r" for r
    using that by (auto simp: rhe_def Let_def)
  then show ?thesis
    using q by (simp add: round_mag_def Let_def)
qed

lemma double_to_int_in_range:
  assumes "0 \<le> m"
  shows "double_to_int (Finite s m) =
         (if in_int_range (Finite s m) then Inr (word_of_int (if s then - \<lfloor>m\<rfloor> else \<lfloor>m\<rfloor>))
          else Inl Undefined_Conversion)"
proof (cases s)
  case True
  have "0 \<le> \<lfloor>m\<rfloor>"
    using assms by simp
  then have "- \<lfloor>m\<rfloor> \<le> 2147483647"
    by linarith
  then have "int_min \<le> - \<lfloor>m\<rfloor> \<and> - \<lfloor>m\<rfloor> \<le> int_max \<longleftrightarrow> m < 2 ^ 31 + 1"
    using assms by (auto simp: int_min_def int_max_def)
  moreover have "in_int_range (Finite s m) \<longleftrightarrow> m < 2 ^ 31 + 1"
    using True assms by (auto simp: in_int_range_def)
  ultimately show ?thesis
    using True by (simp add: double_to_int_def)
next
  case False
  have "int_min \<le> \<lfloor>m\<rfloor> \<and> \<lfloor>m\<rfloor> \<le> int_max \<longleftrightarrow> m < 2 ^ 31"
    using assms by (auto simp: int_min_def int_max_def)
  moreover have "in_int_range (Finite s m) \<longleftrightarrow> m < 2 ^ 31"
    using False assms by (auto simp: in_int_range_def)
  ultimately show ?thesis
    using False by (simp add: double_to_int_def)
qed


lemma fp_round_mag_nonneg: "0 \<le> q \<Longrightarrow> fp_round fmt s q = Finite t m \<Longrightarrow> 0 \<le> m"
  using round_mag_nonneg [of q fmt] by (auto simp: fp_round_def Let_def split: if_splits)

lemma fp_add_mag_nonneg: "fp_add fmt x y = Finite t m \<Longrightarrow> 0 \<le> m"
proof (cases x; cases y)
  fix s a u b
  assume "fp_add fmt x y = Finite t m" and "x = Finite s a" and "y = Finite u b"
  then show "0 \<le> m"
    using fp_round_mag_nonneg [of "\<bar>fp_val x + fp_val y\<bar>" fmt "fp_val x + fp_val y < 0" t m]
    by (simp add: Let_def fp_of_rat_def split: if_splits)
qed (auto split: if_splits)

lemma adjusted_mag_nonneg: "adjusted x = Finite t m \<Longrightarrow> 0 \<le> m"
  unfolding adjusted_def fp_sub_def by (auto dest: fp_add_mag_nonneg split: if_splits)

lemma iround_adjusted: "iround x = double_to_int (adjusted x)"
  by (simp add: iround_def adjusted_def)

lemma sint_in_range: "int_min \<le> t \<Longrightarrow> t \<le> int_max \<Longrightarrow> sint (word_of_int t :: c_int) = t"
  by (simp add: int_min_def int_max_def sint_sbintrunc' signed_take_bit_int_eq_self)

lemma in_int_range_trunc:
  assumes "0 \<le> m" and "in_int_range (Finite s m)"
  shows "int_min \<le> (if s then - \<lfloor>m\<rfloor> else \<lfloor>m\<rfloor>) \<and> (if s then - \<lfloor>m\<rfloor> else \<lfloor>m\<rfloor>) \<le> int_max"
  using assms double_to_int_in_range [OF assms(1), of s]
  by (auto simp: double_to_int_def split: if_splits)

text \<open>
  C9.  \<open>iround\<close> has a defined result exactly when the adjusted value (\<open>x + 0.5\<close> for
  \<open>x >= 0.0\<close>, \<open>x - 0.5\<close> otherwise) fits the range of \<^verbatim>\<open>int\<close>, that is, when it is finite
  and its integral part is a value of \<^verbatim>\<open>int\<close>: then the result is that integral part and
  the undefined conversion is not reached; outside the range the conversion is undefined.
\<close>

theorem iround_defined_iff_in_range:
  "(in_int_range (adjusted x) \<longrightarrow>
      (\<exists>n. iround x = Inr n \<and> truncate_fp (adjusted x) = Some (sint n)))
   \<and> (\<not> in_int_range (adjusted x) \<longrightarrow> iround x = Inl Undefined_Conversion)"
proof (cases "adjusted x")
  case (Finite s m)
  then have m: "0 \<le> m"
    by (rule adjusted_mag_nonneg)
  show ?thesis
    using double_to_int_in_range [OF m, of s] in_int_range_trunc [OF m, of s] Finite
    by (auto simp: iround_adjusted sint_in_range)
next
  case (Infinite s)
  then show ?thesis
    by (simp add: iround_adjusted in_int_range_def double_to_int_def)
next
  case (NaN u)
  then show ?thesis
    by (simp add: iround_adjusted in_int_range_def double_to_int_def)
qed

theorem iround_defined_iff_in_range_witness:
  "in_int_range (adjusted (Finite False (5 / 2)))
   \<and> (\<exists>n. iround (Finite False (5 / 2)) = Inr n
        \<and> truncate_fp (adjusted (Finite False (5 / 2))) = Some (sint n))
   \<and> \<not> in_int_range (adjusted (Finite False 3000000000))
   \<and> iround (Finite False 3000000000) = Inl Undefined_Conversion"
proof -
  have a: "in_int_range (adjusted (Finite False (5 / 2)))"
    by code_simp
  have b: "\<not> in_int_range (adjusted (Finite False 3000000000))"
    by code_simp
  show ?thesis
    using a b iround_defined_iff_in_range [of "Finite False (5 / 2)"]
      iround_defined_iff_in_range [of "Finite False 3000000000"]
    by blast
qed

lemma binary64_simps [simp]:
  "precision binary64 = 53" "min_exp binary64 = - 1074"
  by (simp_all add: binary64_def min_exp_def)

lemma binary32_simps [simp]:
  "precision binary32 = 24" "min_exp binary32 = - 149"
  by (simp_all add: binary32_def min_exp_def)

text \<open>Integers below \<open>2^53\<close> and half-integers below \<open>2^52\<close> are binary64 magnitudes.\<close>

lemma round64_le_int:
  assumes "0 < q" and "q \<le> of_int j" and "j < 2 ^ 53"
  shows "round_mag binary64 q \<le> of_int j"
proof -
  have "0 < j"
    using assms(1,2) by (metis less_le_trans of_int_0_less_iff)
  then show ?thesis
    using assms by (intro round_mag_le_representable [where n = j and k = 0]) simp_all
qed

lemma round64_ge_int:
  assumes "0 < j" and "of_int j \<le> q" and "j < 2 ^ 53"
  shows "of_int j \<le> round_mag binary64 q"
proof -
  have "0 < q"
    using assms(1,2) by (metis less_le_trans of_int_0_less_iff)
  then show ?thesis
    using assms by (intro round_mag_ge_representable [where n = j and k = 0]) simp_all
qed

lemma round64_le_half_int:
  assumes "0 < q" and "q \<le> of_int j + 1 / 2" and "0 \<le> j" and "j < 2 ^ 51"
  shows "round_mag binary64 q \<le> of_int j + 1 / 2"
proof -
  have "of_int j + 1 / 2 = of_int (2 * j + 1) * (2::rat) powi (- 1)"
    by (simp add: field_simps)
  moreover have "2 * j + 1 < 2 ^ 53"
    using assms(4) by simp
  ultimately show ?thesis
    using assms(1,2,3)
    by (intro round_mag_le_representable [where n = "2 * j + 1" and k = "- 1"]) simp_all
qed


text \<open>
  The heart of \<open>iround\<close>: for a binary64 magnitude \<open>a\<close> other than the one next below
  \<open>1/2\<close>, rounding the sum \<open>a + 1/2\<close> to binary64 does not change its integral part, as
  long as the result is in the range of \<^verbatim>\<open>int\<close>.
\<close>

lemma below_half_on_grid:
  assumes grid: "on_grid binary64 a" and a: "a < 1 / 2" and ne: "a \<noteq> 1 / 2 - 1 / 2 ^ 54"
  shows "a \<le> 1 / 2 - 1 / 2 ^ 53"
proof (cases "a \<le> 1 / 4")
  case True
  then show ?thesis
    by simp
next
  case False
  then have apos: "0 < a" and a4: "2 powi (- 2) \<le> a"
    by (simp_all add: power_int_minus)
  obtain n where n: "a = of_int n * 2 powi ulp_exp binary64 a"
    using grid_point [OF grid apos] by blast
  have "- 2 \<le> ilog 2 a"
    using apos a4 by (rule ilog2_ge)
  then have u: "- 54 \<le> ulp_exp binary64 a"
    by (simp add: ulp_exp_def)
  define j where "j = n * 2 ^ nat (ulp_exp binary64 a - (- 54))"
  have "a / 2 powi (- 54) = of_int j"
    unfolding j_def using n u by (rule scaled_integer)
  then have aj: "a = of_int j / 2 ^ 54"
    by (simp add: power_int_minus field_simps)
  have "of_int j < (of_int (2 ^ 53) :: rat)"
    using a unfolding aj by simp
  then have "j < 2 ^ 53"
    by (simp only: of_int_less_iff)
  moreover have "j \<noteq> 2 ^ 53 - 1"
    using ne unfolding aj by auto
  ultimately have "j \<le> 2 ^ 53 - 2"
    by simp
  then have "(of_int j :: rat) \<le> of_int (2 ^ 53 - 2)"
    by (simp only: of_int_le_iff)
  then show ?thesis
    unfolding aj by simp
qed

lemma floor_round_half:
  assumes grid: "on_grid binary64 a" and a0: "0 \<le> a" and ne: "a \<noteq> 1 / 2 - 1 / 2 ^ 54"
    and rng: "round_mag binary64 (a + 1 / 2) < 2 ^ 31 + 1"
  shows "\<lfloor>round_mag binary64 (a + 1 / 2)\<rfloor> = \<lfloor>a + 1 / 2\<rfloor>"
proof -
  define s where "s = a + 1 / 2"
  define r where "r = round_mag binary64 s"
  define N where "N = \<lfloor>s\<rfloor>"
  have spos: "0 < s"
    using a0 by (simp add: s_def)
  have s32: "s < 2 ^ 32"
  proof (rule ccontr)
    assume "\<not> s < 2 ^ 32"
    then have "of_int (2 ^ 32) \<le> s"
      by simp
    then have "of_int (2 ^ 32) \<le> r"
      unfolding r_def by (intro round64_ge_int) simp_all
    with rng show False
      by (simp add: r_def s_def)
  qed
  have N0: "0 \<le> N"
    using spos by (simp add: N_def)
  have Nle: "of_int N \<le> s" and sN: "s < of_int N + 1"
    using floor_correct [of s] by (simp_all add: N_def)
  have "(of_int N :: rat) < of_int (2 ^ 32)"
    using Nle s32 by simp
  then have N32: "N < 2 ^ 32"
    by (simp only: of_int_less_iff)
  have lower: "of_int N \<le> r"
  proof (cases "N = 0")
    case True
    then show ?thesis
      using round_mag_nonneg [of s binary64] spos by (simp add: r_def)
  next
    case False
    with N0 have "0 < N"
      by simp
    then show ?thesis
      unfolding r_def using Nle N32 by (intro round64_ge_int) simp_all
  qed
  have upper: "r < of_int N + 1"
  proof (cases "a < 1 / 2")
    case True
    have "a \<le> 1 / 2 - 1 / 2 ^ 53"
      using grid True ne by (rule below_half_on_grid)
    then have "s \<le> of_int (2 ^ 53 - 1) * 2 powi (- 53)"
      by (simp add: s_def power_int_minus field_simps)
    then have "r \<le> of_int (2 ^ 53 - 1) * 2 powi (- 53)"
      unfolding r_def using spos
      by (intro round_mag_le_representable [where n = "2 ^ 53 - 1" and k = "- 53"]) simp_all
    also have "\<dots> < 1"
      by (simp add: power_int_minus field_simps)
    finally show ?thesis
      using N0 by simp
  next
    case False
    then have a2: "2 powi (- 1) \<le> a" and apos: "0 < a"
      by (simp_all add: power_int_minus)
    let ?L = "ilog 2 a"
    let ?u = "ulp_exp binary64 a"
    obtain n where n: "a = of_int n * 2 powi ?u" "0 < n"
      using grid_point [OF grid apos] by blast
    have L1: "- 1 \<le> ?L"
      using apos a2 by (rule ilog2_ge)
    have "a < 2 powi 32"
      using s32 by (simp add: s_def)
    then have L2: "?L < 32"
      using apos by (intro ilog2_less)
    have u: "?u = ?L - 52"
      using L1 by (simp add: ulp_exp_def)
    have half: "(2::rat) powi (- 1) = of_int (2 ^ nat (- 1 - ?u)) * 2 powi ?u"
      using u L2 by (intro powi_split) simp
    define n' where "n' = n + 2 ^ nat (- 1 - ?u)"
    have "s = of_int n * 2 powi ?u + 2 powi (- 1)"
      using n(1) by (simp add: s_def power_int_minus)
    also have "\<dots> = of_int n' * 2 powi ?u"
      by (subst half) (simp add: n'_def algebra_simps)
    finally have sn': "s = of_int n' * 2 powi ?u" .
    have "0 < (2::int) ^ nat (- 1 - ?u)"
      by simp
    then have n'pos: "0 < n'"
      using n(2) unfolding n'_def by linarith
    define Mi :: int where "Mi = 2 ^ nat (?L + 1)"
    have M: "(2::rat) powi (?L + 1) = of_int Mi"
      using L1 by (simp add: Mi_def power_int_nonneg_exp)
    show ?thesis
    proof (cases "s < 2 powi (?L + 1)")
      case True
      have "?L + 1 = 53 + ?u"
        using u by simp
      then have "(2::rat) powi (?L + 1) = 2 powi (53 + ?u)"
        by (simp only:)
      also have "\<dots> = of_int (2 ^ 53) * 2 powi ?u"
        by (simp add: power_int_add)
      finally have "of_int n' * 2 powi ?u < of_int (2 ^ 53) * (2::rat) powi ?u"
        using True sn' by simp
      then have "(of_int n' :: rat) < of_int (2 ^ 53)"
        by (simp only: mult_less_cancel_right) simp
      then have "n' < 2 ^ 53"
        by (simp only: of_int_less_iff)
      then have "round_mag binary64 s = s"
        using sn' n'pos u L1
        by (intro round_mag_representable [where n = n' and k = "?u"]) simp_all
      then show ?thesis
        using sN by (simp add: r_def)
    next
      case False
      then have Ms: "of_int Mi \<le> s"
        by (simp add: M)
      have "a < of_int Mi"
        using ilog2_bounds(2) [OF apos] by (simp only: M)
      then have sM: "s < of_int Mi + 1 / 2"
        by (simp add: s_def)
      have NM: "N = Mi"
        unfolding N_def using Ms sM by (intro floor_unique) simp_all
      have "Mi < 2 ^ 51"
        using N32 NM by simp
      moreover have "0 \<le> Mi"
        by (simp add: Mi_def)
      ultimately have "r \<le> of_int Mi + 1 / 2"
        unfolding r_def using spos sM by (intro round64_le_half_int) simp_all
      then show ?thesis
        using NM by simp
    qed
  qed
  have "\<lfloor>r\<rfloor> = N"
    using lower upper by (intro floor_unique) simp_all
  then show ?thesis
    by (simp add: r_def N_def s_def)
qed

text \<open>
  \<open>round_half_away\<close> is what its name says: no integer is nearer to \<open>v\<close>, and an
  integer as near as it is no larger in magnitude.
\<close>

lemma half_floor_bounds:
  fixes w :: rat
  defines "N \<equiv> \<lfloor>w + 1 / 2\<rfloor>"
  shows "\<bar>of_int N - w\<bar> \<le> 1 / 2"
    and "k \<noteq> N \<Longrightarrow> 1 / 2 \<le> \<bar>of_int k - w\<bar>"
    and "N < k \<Longrightarrow> 1 / 2 < \<bar>of_int k - w\<bar>"
proof -
  have b: "of_int N \<le> w + 1 / 2" "w + 1 / 2 < of_int N + 1"
    using floor_correct [of "w + 1 / 2"] by (simp_all add: N_def)
  show "\<bar>of_int N - w\<bar> \<le> 1 / 2"
    using b by (simp add: abs_if)
  have up: "1 / 2 < \<bar>of_int k - w\<bar>" if "N < k"
  proof -
    from that have "(of_int (N + 1) :: rat) \<le> of_int k"
      by (subst of_int_le_iff) linarith
    then show ?thesis
      using b by (simp add: abs_if)
  qed
  show "N < k \<Longrightarrow> 1 / 2 < \<bar>of_int k - w\<bar>"
    by (rule up)
  show "1 / 2 \<le> \<bar>of_int k - w\<bar>" if "k \<noteq> N"
  proof (cases "N < k")
    case True
    then show ?thesis
      using up by simp
  next
    case False
    with that have "(of_int k :: rat) \<le> of_int (N - 1)"
      by (subst of_int_le_iff) linarith
    then show ?thesis
      using b by (simp add: abs_if)
  qed
qed

lemma round_half_away_nearest: "\<bar>of_int (round_half_away v) - v\<bar> \<le> \<bar>of_int k - v\<bar>"
proof (cases "0 \<le> v")
  case True
  then have r: "round_half_away v = \<lfloor>v + 1 / 2\<rfloor>"
    by (simp add: round_half_away_def)
  show ?thesis
    using half_floor_bounds(1) [of v] half_floor_bounds(2) [of k v]
    unfolding r by (cases "k = \<lfloor>v + 1 / 2\<rfloor>") simp_all
next
  case False
  then have r: "round_half_away v = - \<lfloor>- v + 1 / 2\<rfloor>"
    by (simp add: round_half_away_def)
  have flip: "\<bar>of_int (- j) - v\<bar> = \<bar>of_int j - (- v)\<bar>" for j
    by (simp add: abs_if)
  show ?thesis
    using half_floor_bounds(1) [of "- v"] half_floor_bounds(2) [of "- k" "- v"]
      flip [of "\<lfloor>- v + 1 / 2\<rfloor>"] flip [of "- k"]
    unfolding r by (cases "- k = \<lfloor>- v + 1 / 2\<rfloor>") simp_all
qed

lemma round_half_away_tie:
  assumes "\<bar>of_int k - v\<bar> = \<bar>of_int (round_half_away v) - v\<bar>"
  shows "\<bar>k\<bar> \<le> \<bar>round_half_away v\<bar>"
proof -
  have away: "\<bar>j\<bar> \<le> \<lfloor>w + 1 / 2\<rfloor>"
    if w: "0 \<le> w" and eq: "\<bar>of_int j - w\<bar> = \<bar>of_int \<lfloor>w + 1 / 2\<rfloor> - w\<bar>" for j and w :: rat
  proof -
    define N where "N = \<lfloor>w + 1 / 2\<rfloor>"
    have le: "\<bar>of_int j - w\<bar> \<le> 1 / 2"
      using half_floor_bounds(1) [of w] eq by simp
    have "\<not> N < j"
      using half_floor_bounds(3) [of w j] le by (auto simp: N_def)
    moreover have "- N \<le> j"
    proof (rule ccontr)
      assume "\<not> - N \<le> j"
      then have "(of_int j :: rat) \<le> of_int (- N - 1)"
        by (subst of_int_le_iff) linarith
      then have "(of_int j :: rat) \<le> - of_int N - 1"
        by simp
      moreover have "0 \<le> N"
        using w by (simp add: N_def)
      then have "(0::rat) \<le> of_int N"
        by (subst of_int_0_le_iff)
      ultimately show False
        using le w by (simp add: abs_if split: if_splits)
    qed
    ultimately show ?thesis
      by (simp add: N_def)
  qed
  show ?thesis
  proof (cases "0 \<le> v")
    case True
    then have r: "round_half_away v = \<lfloor>v + 1 / 2\<rfloor>"
      by (simp add: round_half_away_def)
    have "0 \<le> \<lfloor>v + 1 / 2\<rfloor>"
      using True by simp
    then show ?thesis
      using away [OF True, of k] assms unfolding r by simp
  next
    case False
    then have r: "round_half_away v = - \<lfloor>- v + 1 / 2\<rfloor>" and v: "0 \<le> - v"
      by (simp_all add: round_half_away_def)
    have flip: "\<bar>of_int (- j) - v\<bar> = \<bar>of_int j - (- v)\<bar>" for j
      by (simp add: abs_if)
    have "\<bar>of_int (- k) - (- v)\<bar> = \<bar>of_int \<lfloor>- v + 1 / 2\<rfloor> - (- v)\<bar>"
      using assms flip [of "\<lfloor>- v + 1 / 2\<rfloor>"] flip [of "- k"] unfolding r by simp
    then have "\<bar>- k\<bar> \<le> \<lfloor>- v + 1 / 2\<rfloor>"
      using v by (intro away)
    then show ?thesis
      unfolding r by simp
  qed
qed

lemma adjusted_finite:
  assumes "0 \<le> a"
  shows "adjusted (Finite sg a) = fp_round binary64 (sg \<and> a \<noteq> 0) (a + 1 / 2)"
proof (cases "sg \<and> a \<noteq> 0")
  case True
  then have "0 < a"
    using assms by simp
  then show ?thesis
    using True by (simp add: adjusted_def fp_sub_def fp_of_rat_def Let_def add.commute)
next
  case False
  then show ?thesis
    using assms by (auto simp: adjusted_def fp_of_rat_def Let_def)
qed

lemma fp_round_in_range:
  assumes "in_int_range (fp_round fmt sg q)"
  shows "fp_round fmt sg q = Finite sg (round_mag fmt q)"
    and "round_mag fmt q < 2 ^ 31 + 1"
    and "\<not> sg \<Longrightarrow> round_mag fmt q < 2 ^ 31"
  using assms by (auto simp: fp_round_def in_int_range_def Let_def split: if_splits)

lemma iround_round_half_away:
  assumes fp: "is_fp binary64 (Finite sg a)"
    and rng: "in_int_range (adjusted (Finite sg a))"
    and ne: "a \<noteq> pred_half"
  shows "\<exists>n. iround (Finite sg a) = Inr n \<and> sint n = round_half_away (fp_val (Finite sg a))"
proof -
  let ?s = "sg \<and> a \<noteq> 0"
  let ?r = "round_mag binary64 (a + 1 / 2)"
  have a0: "0 \<le> a" and grid: "on_grid binary64 a"
    using fp by simp_all
  have adj: "adjusted (Finite sg a) = Finite ?s ?r" and r: "?r < 2 ^ 31 + 1"
    using rng fp_round_in_range(1,2) [of binary64 ?s "a + 1 / 2"]
    unfolding adjusted_finite [OF a0] by simp_all
  have fl: "\<lfloor>?r\<rfloor> = \<lfloor>a + 1 / 2\<rfloor>"
    using grid a0 ne r unfolding pred_half_def by (rule floor_round_half)
  have r0: "0 \<le> ?r"
    using a0 by (intro round_mag_nonneg) simp
  define t where "t = (if ?s then - \<lfloor>?r\<rfloor> else \<lfloor>?r\<rfloor>)"
  have tr: "int_min \<le> t \<and> t \<le> int_max"
    using in_int_range_trunc [OF r0, of ?s] rng unfolding adj t_def by simp
  have "iround (Finite sg a) = Inr (word_of_int t)"
    using double_to_int_in_range [OF r0, of ?s] rng
    unfolding iround_adjusted adj t_def by simp
  moreover have "sint (word_of_int t :: c_int) = t"
    using tr by (simp add: sint_in_range)
  moreover have "t = round_half_away (fp_val (Finite sg a))"
    using a0 unfolding t_def fl by (auto simp: round_half_away_def add.commute)
  ultimately show ?thesis
    by simp
qed

text \<open>
  C1.  \<open>iround(x)\<close> is the adjusted value (\<open>x + 0.5\<close> when \<open>x >= 0.0\<close>, \<open>x - 0.5\<close>
  otherwise, each computed in \<^verbatim>\<open>double\<close> arithmetic) truncated toward zero.  For every
  \<^verbatim>\<open>double\<close> \<open>x\<close> whose adjusted value fits the range of \<^verbatim>\<open>int\<close>, and other than the two
  values \<open>\<plusminus>0.49999999999999994\<close>, the result is the nearest integer with ties away
  from zero.  \<open>iround(2.5) = 3\<close>, \<open>iround(-2.5) = -3\<close>, \<open>iround(2.4) = 2\<close>,
  \<open>iround(0.0) = 0\<close>, \<open>iround(-0.5) = -1\<close>.
\<close>

theorem iround_nearest_in_range:
  "iround x = double_to_int (adjusted x)
   \<and> (is_fp binary64 x \<and> in_int_range (adjusted x)
        \<and> x \<noteq> Finite False pred_half \<and> x \<noteq> Finite True pred_half
      \<longrightarrow> (\<exists>n. iround x = Inr n \<and> sint n = round_half_away (fp_val x)))
   \<and> iround (Finite False (5 / 2)) = Inr 3
   \<and> iround (Finite True (5 / 2)) = Inr (- 3)
   \<and> iround (fp_of_rat binary64 (24 / 10)) = Inr 2
   \<and> iround (Finite False 0) = Inr 0
   \<and> iround (Finite True (1 / 2)) = Inr (- 1)"
proof -
  have general: "\<exists>n. iround x = Inr n \<and> sint n = round_half_away (fp_val x)"
    if "is_fp binary64 x" "in_int_range (adjusted x)"
      "x \<noteq> Finite False pred_half" "x \<noteq> Finite True pred_half"
  proof (cases x)
    case (Finite sg a)
    with that have "a \<noteq> pred_half"
      by (cases sg) auto
    with that show ?thesis
      unfolding Finite by (intro iround_round_half_away)
  next
    case (Infinite sg)
    with that(2) show ?thesis
      by (cases sg) (simp_all add: adjusted_def fp_sub_def in_int_range_def)
  next
    case (NaN u)
    with that(2) show ?thesis
      by (simp add: adjusted_def fp_sub_def in_int_range_def)
  qed
  have cases: "iround (Finite False (5 / 2)) = Inr 3
     \<and> iround (Finite True (5 / 2)) = Inr (- 3)
     \<and> iround (fp_of_rat binary64 (24 / 10)) = Inr 2
     \<and> iround (Finite False 0) = Inr 0
     \<and> iround (Finite True (1 / 2)) = Inr (- 1)"
    by code_simp
  show ?thesis
    using general cases iround_adjusted [of x] by blast
qed

theorem iround_nearest_in_range_witness:
  "is_fp binary64 (fp_of_rat binary64 (24 / 10))
   \<and> in_int_range (adjusted (fp_of_rat binary64 (24 / 10)))
   \<and> fp_of_rat binary64 (24 / 10) \<noteq> Finite False pred_half
   \<and> fp_of_rat binary64 (24 / 10) \<noteq> Finite True pred_half
   \<and> (\<exists>n. iround (fp_of_rat binary64 (24 / 10)) = Inr n
        \<and> sint n = round_half_away (fp_val (fp_of_rat binary64 (24 / 10))))"
proof -
  have h: "is_fp binary64 (fp_of_rat binary64 (24 / 10))
     \<and> in_int_range (adjusted (fp_of_rat binary64 (24 / 10)))
     \<and> fp_of_rat binary64 (24 / 10) \<noteq> Finite False pred_half
     \<and> fp_of_rat binary64 (24 / 10) \<noteq> Finite True pred_half"
    by code_simp
  then show ?thesis
    using iround_nearest_in_range [of "fp_of_rat binary64 (24 / 10)"] by blast
qed

text \<open>
  The claim does not hold for every \<^verbatim>\<open>double\<close>: at \<open>0.49999999999999994\<close> the sum
  \<open>x + 0.5\<close> rounds to \<open>1.0\<close>, so \<open>iround\<close> gives 1 where the nearest integer is 0; and
  at \<open>3000000000.0\<close> the nearest integer is no \<^verbatim>\<open>int\<close> and the conversion is undefined.
\<close>

theorem iround_not_nearest_counterexample:
  "is_fp binary64 (Finite False pred_half)
   \<and> iround (Finite False pred_half) = Inr 1
   \<and> round_half_away (fp_val (Finite False pred_half)) = 0
   \<and> iround (Finite False 3000000000) = Inl Undefined_Conversion"
  by code_simp

section \<open>Properties of the allocation wrapper\<close>

lemma scast_at_least:
  assumes "LENGTH(32) \<le> LENGTH('a::len)"
  shows "sint (sz :: 32 word) \<le> uint (scast sz :: 'a word)"
proof (cases "0 \<le> sint sz")
  case True
  have "sint sz < 2 ^ 31"
    using sint_lt [of sz] by simp
  also have "(2::int) ^ 31 \<le> 2 ^ LENGTH('a)"
    using assms by (intro power_increasing) simp_all
  finally have "sint sz < 2 ^ LENGTH('a)" .
  then have "uint (scast sz :: 'a word) = sint sz"
    using True of_int_sint word_of_int_inverse by blast
  then show ?thesis
    by simp
next
  case False
  then show ?thesis
    using uint_ge_0 [of "scast sz :: 'a word"] by linarith
qed

text \<open>
  C6.  \<open>new(size)\<close> is one call of the platform allocator with \<open>size\<close> converted to
  \<^verbatim>\<open>size_t\<close>: the returned handle and the heap afterwards are the allocator's, unchanged
  (so the block is not initialised by \<open>new\<close>); the requested size is at least \<open>size\<close> when
  \<^verbatim>\<open>size_t\<close> is at least as wide as \<^verbatim>\<open>int\<close>; and when the allocator returns the null
  pointer, \<open>new\<close> returns the null pointer: it has no check and no other outcome.
\<close>

theorem new_returns_malloc_result:
  "new malloc sz h = malloc (scast sz) h
   \<and> (LENGTH(32) \<le> LENGTH('a) \<longrightarrow> sint sz \<le> uint (scast sz :: 'a::len word))
   \<and> (fst (malloc (scast sz) h) = 0 \<longrightarrow> fst (new malloc sz h) = (0 :: 'a word))"
  by (simp add: new_def scast_at_least)

theorem new_returns_malloc_result_witness:
  "new bump_malloc 5000 heap0 = bump_malloc (scast (5000 :: 32 word)) heap0
   \<and> LENGTH(32) \<le> LENGTH(32) \<and> sint (5000 :: 32 word) \<le> uint (scast (5000 :: 32 word) :: 32 word)
   \<and> fst (bump_malloc (scast (5000 :: 32 word)) heap0) = 0
   \<and> fst (new bump_malloc 5000 heap0) = 0"
proof -
  have "fst (bump_malloc (scast (5000 :: 32 word)) heap0) = 0"
    by (simp add: bump_malloc_def heap0_def)
  then show ?thesis
    using new_returns_malloc_result [of bump_malloc 5000 heap0] by simp
qed

lemma new_leaves_memory:
  "new bump_malloc 16 heap0 = (4096, heap0\<lparr>brk := 4112\<rparr>)
   \<and> mem (snd (new bump_malloc 16 heap0)) 4096 = 170"
  by (simp add: new_def bump_malloc_def heap0_def)

section \<open>Properties of the entry point\<close>

lemma exit_status_sint: "int (exit_status r) = sint r mod 256"
proof -
  have "uint r = sint r mod 2 ^ 32"
    using uint_sint [of r] by (simp add: take_bit_eq_mod)
  then have "uint r mod 256 = sint r mod 2 ^ 32 mod 256"
    by (simp only:)
  moreover have "(256::int) dvd 2 ^ 32"
    by simp
  ultimately have "uint r mod 256 = sint r mod 256"
    by (simp only: mod_mod_cancel)
  then show ?thesis
    by (simp add: exit_status_def zmod_int)
qed

lemma exit_status_verbatim_iff:
  "(int (exit_status r) = sint r) = (0 \<le> sint r \<and> sint r \<le> 255)"
proof -
  have "(sint r mod 256 = sint r) = (0 \<le> sint r \<and> sint r < 256)"
    by (metis mod_pos_pos_trivial pos_mod_bound pos_mod_sign zero_less_numeral)
  moreover have "(sint r < 256) = (sint r \<le> 255)"
    by linarith
  ultimately show ?thesis
    by (simp only: exit_status_sint)
qed

text \<open>
  C3.  \<open>main\<close> takes no argument of its own, calls \<open>asm_main\<close> once (the call count
  goes up by one, the state is the one \<open>asm_main\<close> leaves) and returns the integer
  \<open>asm_main\<close> returned, unchanged.  The exit status of the process is that integer
  modulo 256: it is the integer itself exactly when the integer lies between 0 and 255.
  When \<open>asm_main\<close> returns 7, \<open>main\<close> returns 7 and the process exits with status 7.
\<close>

theorem main_forwards_asm_main:
  "fst (main asm_main p) = fst (asm_main (world p))
   \<and> world (snd (main asm_main p)) = snd (asm_main (world p))
   \<and> asm_main_calls (snd (main asm_main p)) = Suc (asm_main_calls p)
   \<and> int (process_exit_status asm_main p) = sint (fst (asm_main (world p))) mod 256
   \<and> (int (process_exit_status asm_main p) = sint (fst (asm_main (world p))))
       = (0 \<le> sint (fst (asm_main (world p))) \<and> sint (fst (asm_main (world p))) \<le> 255)
   \<and> fst (main (\<lambda>w. (7, w)) p) = 7
   \<and> process_exit_status (\<lambda>w. (7, w)) p = 7"
proof -
  have m: "fst (main asm_main p) = fst (asm_main (world p))" for asm_main :: "'a \<Rightarrow> c_int \<times> 'a"
    by (simp add: main_def call_asm_main_def split: prod.split)
  have s: "world (snd (main asm_main p)) = snd (asm_main (world p))"
    "asm_main_calls (snd (main asm_main p)) = Suc (asm_main_calls p)"
    by (simp_all add: main_def call_asm_main_def split: prod.split)
  have e: "process_exit_status asm_main p = exit_status (fst (asm_main (world p)))"
    for asm_main :: "'a \<Rightarrow> c_int \<times> 'a"
    by (simp only: process_exit_status_def m)
  have seven: "process_exit_status (\<lambda>w. (7, w)) p = 7"
    by (simp add: e exit_status_def)
  show ?thesis
    using m s seven exit_status_sint exit_status_verbatim_iff by (simp add: e)
qed

theorem main_forwards_asm_main_witness:
  "fst (main (Pair 7) \<lparr>world = (), asm_main_calls = 0\<rparr>) = 7
   \<and> asm_main_calls (snd (main (Pair 7) \<lparr>world = (), asm_main_calls = 0\<rparr>)) = 1
   \<and> process_exit_status (Pair 7) \<lparr>world = (), asm_main_calls = 0\<rparr> = 7
   \<and> process_exit_status (Pair 200) \<lparr>world = (), asm_main_calls = 0\<rparr> = 200"
proof -
  note a = main_forwards_asm_main [of "Pair 7" "\<lparr>world = (), asm_main_calls = 0\<rparr>"]
  note b = main_forwards_asm_main [of "Pair 200" "\<lparr>world = (), asm_main_calls = 0\<rparr>"]
  have "sint (200 :: c_int) = 200" "sint (7 :: c_int) = 7"
    by simp_all
  then show ?thesis
    using a b by simp
qed

text \<open>
  The exit status is not the returned integer verbatim: when \<open>asm_main\<close> returns 256 the
  process exits with status 0, and when it returns \<open>-1\<close>, with status 255.
\<close>

theorem exit_status_not_verbatim_counterexample:
  "fst (main (Pair 256) \<lparr>world = (), asm_main_calls = 0\<rparr>) = 256
   \<and> process_exit_status (Pair 256) \<lparr>world = (), asm_main_calls = 0\<rparr> = 0
   \<and> fst (main (Pair (- 1)) \<lparr>world = (), asm_main_calls = 0\<rparr>) = - 1
   \<and> process_exit_status (Pair (- 1)) \<lparr>world = (), asm_main_calls = 0\<rparr> = 255
   \<and> int (process_exit_status (Pair 256) \<lparr>world = (), asm_main_calls = 0\<rparr>)
       \<noteq> sint (fst (main (Pair 256) \<lparr>world = (), asm_main_calls = 0\<rparr>))
   \<and> int (process_exit_status (Pair (- 1)) \<lparr>world = (), asm_main_calls = 0\<rparr>)
       \<noteq> sint (fst (main (Pair (- 1)) \<lparr>world = (), asm_main_calls = 0\<rparr>))"
proof -
  have "int (exit_status (- 1)) = 255"
    by (simp only: exit_status_sint) simp
  then have "exit_status (- 1) = 255"
    by linarith
  moreover have "exit_status 256 = 0"
    by (simp add: exit_status_def)
  ultimately show ?thesis
    by (simp add: process_exit_status_def main_def call_asm_main_def)
qed

section \<open>Properties of the single-precision entry points\<close>

lemma max_finite_binary32: "max_finite binary32 = 340282346638528859811704183484516925440"
  by (simp add: max_finite_def binary32_def)

lemma max_finite_32_le_64: "max_finite binary32 \<le> max_finite binary64"
proof -
  have "(2::rat) ^ 128 \<le> 2 ^ 971"
    by (rule power_increasing) simp_all
  moreover have "max_finite binary32 \<le> 2 ^ 128"
    by (simp add: max_finite_binary32)
  moreover have "(2::rat) ^ 971 \<le> max_finite binary64"
  proof -
    have "(1::rat) * 2 powi 971 \<le> (2 ^ 53 - 1) * 2 powi 971"
      by (intro mult_right_mono) simp_all
    then show ?thesis
      by (simp add: max_finite_def binary64_def)
  qed
  ultimately show ?thesis
    by linarith
qed

lemma ulp_exp_ge_min: "min_exp fmt \<le> ulp_exp fmt q"
  by (simp add: ulp_exp_def)

lemma float_to_double_exact:
  assumes "is_fp binary32 f"
  shows "float_to_double f = f"
proof (cases f)
  case (Finite sg a)
  have a0: "0 \<le> a" and amax: "a \<le> max_finite binary32" and grid: "on_grid binary32 a"
    using assms Finite by simp_all
  have "round_mag binary64 a = a"
  proof (cases "a = 0")
    case True
    then show ?thesis
      by (simp add: round_mag_def)
  next
    case False
    with a0 have apos: "0 < a"
      by simp
    obtain n where n: "a = of_int n * 2 powi ulp_exp binary32 a" "0 < n" "n < 2 ^ 24"
      using grid_point [OF grid apos] by auto
    have "n < 2 ^ 53"
      using n(3) by simp
    moreover have "- 1074 \<le> ulp_exp binary32 a"
      using ulp_exp_ge_min [of binary32 a] by simp
    ultimately show ?thesis
      using n(1,2)
      by (intro round_mag_representable [where n = n and k = "ulp_exp binary32 a"]) simp_all
  qed
  moreover have "\<not> max_finite binary64 < a"
    using amax max_finite_32_le_64 by simp
  ultimately show ?thesis
    using Finite by (simp add: float_to_double_def fp_round_def)
qed (simp_all add: float_to_double_def)

lemma rhe_nearest: "\<bar>of_int (rhe t) - t\<bar> \<le> \<bar>of_int i - t\<bar>"
proof (cases "i = rhe t")
  case True
  then show ?thesis
    by simp
next
  case False
  then have "1 \<le> \<bar>i - rhe t\<bar>"
    by linarith
  then have "(of_int 1 :: rat) \<le> of_int \<bar>i - rhe t\<bar>"
    by (simp only: of_int_le_iff)
  then have "(1::rat) \<le> \<bar>of_int i - of_int (rhe t)\<bar>"
    by simp
  then show ?thesis
    using rhe_half [of t] by linarith
qed

lemma rhe_ge_half_even:
  assumes "even N" and "of_int N - 1 / 2 \<le> t"
  shows "N \<le> rhe t"
proof (cases "of_int N \<le> t")
  case True
  then show ?thesis
    by (rule rhe_ge)
next
  case False
  then have "of_int (N - 1) \<le> t" "t < of_int (N - 1) + 1"
    using assms(2) by simp_all
  then have fl: "\<lfloor>t\<rfloor> = N - 1"
    by (intro floor_unique)
  have "odd (N - 1)"
    using assms(1) by simp
  moreover have "1 / 2 \<le> t - of_int (N - 1)"
    using assms(2) by simp
  ultimately show ?thesis
    by (simp add: rhe_def Let_def fl)
qed

lemma rhe_less_half:
  assumes "t < of_int N - 1 / 2"
  shows "rhe t < N"
proof (cases "\<lfloor>t\<rfloor> = N - 1")
  case True
  have "t - of_int (N - 1) < 1 / 2"
    using assms by simp
  then show ?thesis
    by (simp add: rhe_def Let_def True)
next
  case False
  have "t < of_int N"
    using assms by simp
  then have "\<lfloor>t\<rfloor> < N"
    by (simp add: floor_less_iff)
  with False have "\<lfloor>t\<rfloor> + 1 < N"
    by simp
  then show ?thesis
    using rhe_cases [of t] by linarith
qed

text \<open>
  Rounding gives a value of the format, and no value of the format is nearer: the result
  is a whole multiple of the unit in the last place of \<open>q\<close>, the nearest one, and every
  magnitude of the format below the binade of \<open>q\<close> is further away than the start of
  that binade.
\<close>

lemma representable_on_grid:
  fixes y :: rat
  assumes y: "y = of_int n * 2 powi k" and n: "0 < n" "n < 2 ^ precision fmt"
    and k: "min_exp fmt \<le> k"
  shows "on_grid fmt y"
proof -
  let ?u = "ulp_exp fmt y"
  have e: "y / 2 powi ?u = of_int (n * 2 ^ nat (k - ?u))"
    using y ulp_exp_le [OF y n k] by (rule scaled_integer)
  have "of_int \<lfloor>y / 2 powi ?u\<rfloor> = y / 2 powi ?u"
    by (simp only: e floor_of_int)
  then show ?thesis
    by (simp add: on_grid_def Let_def)
qed

lemma round_mag_on_grid:
  assumes p: "0 < precision fmt" and q: "0 \<le> q"
  shows "on_grid fmt (round_mag fmt q)"
proof (cases "q = 0")
  case True
  then show ?thesis
    by (simp add: round_mag_def on_grid_def)
next
  case False
  with q have qpos: "0 < q"
    by simp
  let ?k = "ulp_exp fmt q"
  let ?p = "precision fmt"
  define N where "N = rhe (q / 2 powi ?k)"
  have r: "round_mag fmt q = of_int N * 2 powi ?k"
    using qpos by (simp add: round_mag_def Let_def N_def)
  have kmin: "min_exp fmt \<le> ?k"
    by (rule ulp_exp_ge_min)
  have "of_int 0 \<le> q / 2 powi ?k"
    using qpos by simp
  then have N0: "0 \<le> N"
    unfolding N_def by (rule rhe_ge)
  have "ilog 2 q + 1 \<le> int ?p + ?k"
    by (simp add: ulp_exp_def)
  then have "(2::rat) powi (ilog 2 q + 1) \<le> 2 powi (int ?p + ?k)"
    by (intro power_int_increasing) simp_all
  then have "q < 2 powi (int ?p + ?k)"
    using ilog2_bounds(2) [OF qpos] by simp
  also have "\<dots> = 2 ^ ?p * 2 powi ?k"
    by (simp add: power_int_add)
  finally have "q / 2 powi ?k < 2 ^ ?p"
    by (simp add: pos_divide_less_eq)
  then have "q / 2 powi ?k \<le> of_int (2 ^ ?p)"
    by simp
  then have Np: "N \<le> 2 ^ ?p"
    unfolding N_def by (rule rhe_le)
  consider "N = 0" | "0 < N" "N < 2 ^ ?p" | "N = 2 ^ ?p"
    using N0 Np by linarith
  then show ?thesis
  proof cases
    case 1
    then show ?thesis
      by (simp add: r on_grid_def)
  next
    case 2
    with r kmin show ?thesis
      by (intro representable_on_grid [where n = N and k = ?k])
  next
    case 3
    have "(2::rat) ^ ?p = 2 ^ (?p - 1) * 2"
      using p by (cases ?p) simp_all
    then have "round_mag fmt q = of_int (2 ^ (?p - 1)) * 2 powi (?k + 1)"
      by (simp add: r 3 power_int_add)
    moreover have "(2::int) ^ (?p - 1) < 2 ^ ?p"
      using p by (intro power_strict_increasing) simp_all
    ultimately show ?thesis
      using kmin by (intro representable_on_grid [where n = "2 ^ (?p - 1)" and k = "?k + 1"]) simp_all
  qed
qed

lemma fp_round_is_fp:
  assumes "0 < precision fmt" and "0 \<le> q"
  shows "is_fp fmt (fp_round fmt s q)"
  using round_mag_on_grid [OF assms] round_mag_nonneg [OF assms(2), of fmt]
  by (simp add: fp_round_def Let_def)

lemma round_mag_nearest_multiple:
  assumes q: "0 < q"
  shows "\<bar>round_mag fmt q - q\<bar> \<le> \<bar>of_int i * 2 powi ulp_exp fmt q - q\<bar>"
proof -
  define u :: rat where "u = 2 powi ulp_exp fmt q"
  define t where "t = q / u"
  have upos: "0 < u"
    by (simp add: u_def)
  have scale: "\<bar>a - t\<bar> * u = \<bar>a * u - q\<bar>" for a
  proof -
    have "(a - t) * u = a * u - q"
      using upos by (simp add: t_def left_diff_distrib)
    then show ?thesis
      using upos abs_mult_pos [of u "a - t"] by simp
  qed
  have "\<bar>of_int (rhe t) - t\<bar> \<le> \<bar>of_int i - t\<bar>"
    by (rule rhe_nearest)
  then have "\<bar>of_int (rhe t) - t\<bar> * u \<le> \<bar>of_int i - t\<bar> * u"
    using upos by (intro mult_right_mono) simp_all
  then have "\<bar>of_int (rhe t) * u - q\<bar> \<le> \<bar>of_int i * u - q\<bar>"
    by (simp only: scale)
  moreover have "round_mag fmt q = of_int (rhe t) * u"
    using q by (simp add: round_mag_def Let_def t_def u_def)
  ultimately show ?thesis
    by (simp add: u_def)
qed

lemma round_mag_nearest:
  assumes p: "0 < precision fmt" and q: "0 < q" and z: "0 \<le> z" "on_grid fmt z"
  shows "\<bar>round_mag fmt q - q\<bar> \<le> \<bar>z - q\<bar>"
proof (cases "z = 0")
  case True
  then show ?thesis
    using round_mag_nearest_multiple [OF q, of fmt 0] by simp
next
  case False
  with z have zpos: "0 < z"
    by simp
  let ?k = "ulp_exp fmt q"
  let ?L = "ilog 2 q"
  obtain n where n: "z = of_int n * 2 powi ulp_exp fmt z" "0 < n" "n < 2 ^ precision fmt"
    using grid_point [OF z(2) zpos] by blast
  show ?thesis
  proof (cases "?k \<le> ulp_exp fmt z")
    case True
    have "z / 2 powi ?k = of_int (n * 2 ^ nat (ulp_exp fmt z - ?k))"
      using n(1) True by (rule scaled_integer)
    then have "z = of_int (n * 2 ^ nat (ulp_exp fmt z - ?k)) * 2 powi ?k"
      by (simp add: field_simps)
    then show ?thesis
      using round_mag_nearest_multiple [OF q, of fmt "n * 2 ^ nat (ulp_exp fmt z - ?k)"]
      by (simp only:)
  next
    case False
    then have lt: "ulp_exp fmt z < ?k"
      by simp
    have u: "?k = ?L + 1 - int (precision fmt)" and zL: "z < 2 powi ?L"
      using below_grid [OF n ulp_exp_ge_min q lt] by simp_all
    have "?k \<le> ?L"
      using u p by simp
    then have "(2::rat) powi ?L = of_int (2 ^ nat (?L - ?k)) * 2 powi ?k"
      by (rule powi_split)
    then have "\<bar>round_mag fmt q - q\<bar> \<le> \<bar>2 powi ?L - q\<bar>"
      using round_mag_nearest_multiple [OF q, of fmt "2 ^ nat (?L - ?k)"] by (simp only:)
    also have "\<dots> = q - 2 powi ?L"
      using ilog2_bounds(1) [OF q] by simp
    also have "\<dots> \<le> \<bar>z - q\<bar>"
      using zL by simp
    finally show ?thesis .
  qed
qed


text \<open>
  Narrowing to \<^verbatim>\<open>float\<close> overflows exactly from \<open>(2^25 - 1) * 2^103\<close> on, the midpoint
  between the largest \<^verbatim>\<open>float\<close> and \<open>2^128\<close>.
\<close>

lemma max_finite_binary32_rep: "max_finite binary32 = of_int (2 ^ 24 - 1) * 2 powi 104"
  by (simp add: max_finite_def binary32_def)

lemma narrow_overflow:
  assumes m: "0 \<le> m"
  shows "(max_finite binary32 < round_mag binary32 m) = ((2 ^ 25 - 1) * 2 ^ 103 \<le> m)"
proof -
  let ?F = "max_finite binary32"
  let ?T = "(2 ^ 25 - 1) * 2 ^ 103 :: rat"
  have FT: "?F < ?T" and F127: "2 powi 127 \<le> ?F" and F128: "?F < 2 powi 128"
    and T128: "?T \<le> 2 powi 128"
    by (simp_all add: max_finite_binary32)
  consider "m \<le> ?F" | "?F < m" "m < 2 powi 128" | "2 powi 128 \<le> m"
    by linarith
  then show ?thesis
  proof cases
    case 1
    have "round_mag binary32 m \<le> ?F"
    proof (cases "m = 0")
      case True
      then show ?thesis
        using F127 by (simp add: round_mag_def less_imp_le [OF less_le_trans [of 0 "2 powi 127"]])
    next
      case False
      with m have "0 < m"
        by simp
      then show ?thesis
        using 1
        by (intro round_mag_le_representable [OF max_finite_binary32_rep]) simp_all
    qed
    then show ?thesis
      using 1 FT by simp
  next
    case 2
    have mpos: "0 < m"
      using 2(1) F127 by (simp add: less_trans [OF less_le_trans [of 0 "2 powi 127"]])
    have "127 \<le> ilog 2 m"
      using mpos 2(1) F127 by (intro ilog2_ge) simp_all
    moreover have "ilog 2 m < 128"
      using mpos 2(2) by (rule ilog2_less)
    ultimately have u: "ulp_exp binary32 m = 104"
      by (simp add: ulp_exp_def)
    define t where "t = m / 2 powi 104"
    have r: "round_mag binary32 m = of_int (rhe t) * 2 powi 104"
      using mpos by (simp add: round_mag_def Let_def u t_def)
    have "(?F < round_mag binary32 m) = ((of_int (2 ^ 24 - 1) :: rat) < of_int (rhe t))"
      unfolding r max_finite_binary32_rep by (simp only: mult_less_cancel_right) simp
    also have "\<dots> = (2 ^ 24 - 1 < rhe t)"
      by (simp only: of_int_less_iff)
    also have "\<dots> = (?T \<le> m)"
    proof (cases "?T \<le> m")
      case True
      then have "?T / 2 powi 104 \<le> t"
        unfolding t_def by (intro divide_right_mono) simp_all
      then have "of_int (2 ^ 24) - 1 / 2 \<le> t"
        by simp
      then have "2 ^ 24 \<le> rhe t"
        by (intro rhe_ge_half_even) simp_all
      then show ?thesis
        using True by simp
    next
      case False
      then have "t < ?T / 2 powi 104"
        unfolding t_def by (intro divide_strict_right_mono) simp_all
      then have "t < of_int (2 ^ 24) - 1 / 2"
        by simp
      then have "rhe t < 2 ^ 24"
        by (rule rhe_less_half)
      then show ?thesis
        using False by simp
    qed
    finally show ?thesis .
  next
    case 3
    have mpos: "0 < m"
      using 3 by (simp add: less_le_trans [of 0 "2 powi 128"])
    have "(2::rat) powi 128 = of_int (2 ^ 23) * 2 powi 105"
      by simp
    then have "2 powi 128 \<le> round_mag binary32 m"
      using mpos 3 by (intro round_mag_ge_representable [where n = "2 ^ 23" and k = 105]) simp_all
    then show ?thesis
      using 3 F128 T128 by simp
  qed
qed

lemma double_to_float_overflow:
  assumes "0 \<le> m"
  shows "(double_to_float (Finite s m) = Infinite s) = ((2 ^ 25 - 1) * 2 ^ 103 \<le> m)"
  using narrow_overflow [OF assms] by (simp add: double_to_float_def fp_round_def Let_def)

lemma double_to_float_is_fp:
  assumes "is_fp binary64 y"
  shows "is_fp binary32 (double_to_float y)"
proof (cases y)
  case (Finite s m)
  then have "0 \<le> m"
    using assms by simp
  then show ?thesis
    using Finite by (simp add: double_to_float_def fp_round_is_fp)
qed (simp_all add: double_to_float_def)

lemma double_to_float_nearest:
  assumes m: "0 \<le> m" and below: "m < (2 ^ 25 - 1) * 2 ^ 103" and z: "is_fp binary32 (Finite t z)"
  shows "\<exists>r. double_to_float (Finite s m) = Finite s r
          \<and> \<bar>fp_val (Finite s r) - fp_val (Finite s m)\<bar> \<le> \<bar>fp_val (Finite t z) - fp_val (Finite s m)\<bar>"
proof -
  define r where "r = round_mag binary32 m"
  have "\<not> max_finite binary32 < r"
    unfolding r_def using narrow_overflow [OF m] below by simp
  then have d: "double_to_float (Finite s m) = Finite s r"
    by (simp add: double_to_float_def fp_round_def r_def)
  have z0: "0 \<le> z" and zg: "on_grid binary32 z"
    using z by simp_all
  have near: "\<bar>r - m\<bar> \<le> \<bar>w - m\<bar>" if "0 \<le> w" "on_grid binary32 w" for w
  proof (cases "m = 0")
    case True
    then show ?thesis
      by (simp add: r_def round_mag_def)
  next
    case False
    with m have "0 < m"
      by simp
    then show ?thesis
      unfolding r_def using that by (intro round_mag_nearest) simp_all
  qed
  have nz: "\<bar>r - m\<bar> \<le> \<bar>z - m\<bar>"
    using z0 zg by (rule near)
  have "\<bar>r - m\<bar> \<le> \<bar>0 - m\<bar>"
    by (rule near) (simp_all add: on_grid_def)
  then have n0: "\<bar>r - m\<bar> \<le> z + m"
    using m z0 by simp
  have "\<bar>fp_val (Finite s r) - fp_val (Finite s m)\<bar> = \<bar>r - m\<bar>"
    by (cases s) (simp_all add: abs_minus_commute)
  moreover have "\<bar>r - m\<bar> \<le> \<bar>fp_val (Finite t z) - fp_val (Finite s m)\<bar>"
  proof (cases "s = t")
    case True
    have "\<bar>fp_val (Finite t z) - fp_val (Finite s m)\<bar> = \<bar>z - m\<bar>"
      using True by (cases s) simp_all
    then show ?thesis
      using nz by simp
  next
    case False
    have "\<bar>fp_val (Finite t z) - fp_val (Finite s m)\<bar> = z + m"
      using False m z0 by (cases s; cases t) simp_all
    then show ?thesis
      using n0 by simp
  qed
  ultimately show ?thesis
    using d by simp
qed


text \<open>
  C2.  Each of \<open>sin32\<close>, \<open>cos32\<close>, \<open>sqrt32\<close>, \<open>exp32\<close>, \<open>round32\<close> widens its
  \<^verbatim>\<open>float\<close> argument to \<^verbatim>\<open>double\<close>, calls the double-precision function of \<^verbatim>\<open>math.h\<close>
  and narrows the result to \<^verbatim>\<open>float\<close>: \<open>fn32(f) = narrow(fn(widen(f)))\<close>, whatever the
  library functions compute.  Widening a \<^verbatim>\<open>float\<close> is exact.  Narrowing a \<^verbatim>\<open>double\<close>
  gives a \<^verbatim>\<open>float\<close>: an infinity and a NaN stay what they are; a finite \<^verbatim>\<open>double\<close> of
  magnitude \<open>(2^25 - 1) * 2^103\<close> or more (half a unit in the last place above the
  largest \<^verbatim>\<open>float\<close>) becomes the infinity of its sign; every other finite \<^verbatim>\<open>double\<close>
  becomes a finite \<^verbatim>\<open>float\<close> of the same sign, and no finite \<^verbatim>\<open>float\<close> is nearer to it.
\<close>

theorem math32_promote_delegate_demote:
  "sin32 L f = double_to_float (libm_sin L (float_to_double f))
   \<and> cos32 L f = double_to_float (libm_cos L (float_to_double f))
   \<and> sqrt32 L f = double_to_float (libm_sqrt L (float_to_double f))
   \<and> exp32 L f = double_to_float (libm_exp L (float_to_double f))
   \<and> round32 L f = double_to_float (libm_round L (float_to_double f))
   \<and> (is_fp binary32 f \<longrightarrow> float_to_double f = f)
   \<and> (is_fp binary64 y \<longrightarrow> is_fp binary32 (double_to_float y))
   \<and> (is_fp binary64 (Finite s m) \<longrightarrow>
        (double_to_float (Finite s m) = Infinite s) = ((2 ^ 25 - 1) * 2 ^ 103 \<le> m))
   \<and> (is_fp binary64 (Finite s m) \<and> m < (2 ^ 25 - 1) * 2 ^ 103 \<and> is_fp binary32 (Finite t z) \<longrightarrow>
        (\<exists>r. double_to_float (Finite s m) = Finite s r
           \<and> \<bar>fp_val (Finite s r) - fp_val (Finite s m)\<bar>
               \<le> \<bar>fp_val (Finite t z) - fp_val (Finite s m)\<bar>))
   \<and> double_to_float (Infinite s) = Infinite s
   \<and> double_to_float (NaN s) = NaN s"
proof -
  have eqs: "sin32 L f = double_to_float (libm_sin L (float_to_double f))"
    "cos32 L f = double_to_float (libm_cos L (float_to_double f))"
    "sqrt32 L f = double_to_float (libm_sqrt L (float_to_double f))"
    "exp32 L f = double_to_float (libm_exp L (float_to_double f))"
    "round32 L f = double_to_float (libm_round L (float_to_double f))"
    by (simp_all add: sin32_def cos32_def sqrt32_def exp32_def round32_def FUNC32_def)
  have special: "double_to_float (Infinite s) = Infinite s" "double_to_float (NaN s) = NaN s"
    by (simp_all add: double_to_float_def)
  have m0: "0 \<le> m" if "is_fp binary64 (Finite s m)"
    using that by simp
  show ?thesis
    using eqs special float_to_double_exact [of f] double_to_float_is_fp [of y]
      double_to_float_overflow [of m s] double_to_float_nearest [of m t z s] m0
    by blast
qed

theorem math32_promote_delegate_demote_witness:
  "is_fp binary32 (Finite False (1 / 8))
   \<and> is_fp binary64 (Finite False (3602879701896397 / 36028797018963968))
   \<and> sin32 \<lparr>libm_sin = \<lambda>x. Finite False (3602879701896397 / 36028797018963968),
        libm_cos = \<lambda>x. x, libm_sqrt = \<lambda>x. x, libm_exp = \<lambda>x. x, libm_round = \<lambda>x. x\<rparr>
        (Finite False (1 / 8))
      = Finite False (13421773 / 134217728)
   \<and> double_to_float (Finite False (3602879701896397 / 36028797018963968))
      \<noteq> Finite False (3602879701896397 / 36028797018963968)
   \<and> is_fp binary32 (double_to_float (Finite False (3602879701896397 / 36028797018963968)))
   \<and> \<bar>fp_val (double_to_float (Finite False (3602879701896397 / 36028797018963968)))
        - 3602879701896397 / 36028797018963968\<bar>
      \<le> \<bar>1 / 8 - 3602879701896397 / 36028797018963968\<bar>"
proof -
  let ?m = "3602879701896397 / 36028797018963968 :: rat"
  let ?L = "\<lparr>libm_sin = \<lambda>x. Finite False ?m,
        libm_cos = \<lambda>x. x, libm_sqrt = \<lambda>x. x, libm_exp = \<lambda>x. x, libm_round = \<lambda>x. x\<rparr>"
  have ev: "on_grid binary32 (1 / 8) \<and> on_grid binary64 ?m
      \<and> double_to_float (Finite False ?m) = Finite False (13421773 / 134217728)"
    by code_simp
  have f: "is_fp binary32 (Finite False (1 / 8))"
    using ev by (simp add: max_finite_binary32)
  have "?m \<le> max_finite binary32"
    by (simp add: max_finite_binary32)
  then have "?m \<le> max_finite binary64"
    using max_finite_32_le_64 by (rule order_trans)
  then have y: "is_fp binary64 (Finite False ?m)"
    using ev by simp
  have below: "?m < (2 ^ 25 - 1) * 2 ^ 103"
    by simp
  note t = math32_promote_delegate_demote [of ?L "Finite False (1 / 8)" "Finite False ?m" False ?m False "1 / 8"]
  have w: "float_to_double (Finite False (1 / 8)) = Finite False (1 / 8)"
    using t f by blast
  have s: "sin32 ?L (Finite False (1 / 8)) = double_to_float (libm_sin ?L (float_to_double (Finite False (1 / 8))))"
    using t by blast
  have d: "double_to_float (Finite False ?m) = Finite False (13421773 / 134217728)"
    using ev by blast
  have s': "sin32 ?L (Finite False (1 / 8)) = Finite False (13421773 / 134217728)"
    unfolding s w using d by simp
  have n: "is_fp binary32 (double_to_float (Finite False ?m))"
    using t y by blast
  obtain r where r: "double_to_float (Finite False ?m) = Finite False r"
    "\<bar>fp_val (Finite False r) - fp_val (Finite False ?m)\<bar>
       \<le> \<bar>fp_val (Finite False (1 / 8)) - fp_val (Finite False ?m)\<bar>"
    using t y below f by blast
  have near: "\<bar>fp_val (double_to_float (Finite False ?m)) - ?m\<bar> \<le> \<bar>1 / 8 - ?m\<bar>"
    using r(2) unfolding r(1) by simp
  have ne: "double_to_float (Finite False ?m) \<noteq> Finite False ?m"
    unfolding d by simp
  show ?thesis
    using f y s' ne n near by (intro conjI)
qed

lemma round64_range:
  assumes "round_mag binary64 s < 2 ^ 31 + 1"
  shows "s < 2 ^ 32"
proof (rule ccontr)
  assume "\<not> s < 2 ^ 32"
  then have "of_int (2 ^ 32) \<le> s"
    by simp
  then have "of_int (2 ^ 32) \<le> round_mag binary64 s"
    by (intro round64_ge_int) simp_all
  with assms show False
    by simp
qed

text \<open>The integral part of the rounded sum, for a binary32 magnitude, is a binary32 magnitude.\<close>

lemma floor_round_half_float:
  assumes grid: "on_grid binary32 a" and a0: "0 \<le> a"
    and rng: "round_mag binary64 (a + 1 / 2) < 2 ^ 31 + 1"
  shows "round_mag binary32 (of_int \<lfloor>round_mag binary64 (a + 1 / 2)\<rfloor>)
         = of_int \<lfloor>round_mag binary64 (a + 1 / 2)\<rfloor>"
    and "2 ^ 23 \<le> a \<Longrightarrow> of_int \<lfloor>round_mag binary64 (a + 1 / 2)\<rfloor> = a"
proof -
  let ?r = "round_mag binary64 (a + 1 / 2)"
  have spos: "0 < a + 1 / 2"
    using a0 by simp
  have s32: "a + 1 / 2 < 2 ^ 32"
    using rng by (rule round64_range)
  have big: "of_int \<lfloor>?r\<rfloor> = a \<and> round_mag binary32 a = a" if a23: "2 ^ 23 \<le> a"
  proof -
    have apos: "0 < a"
      using a23 by (simp add: less_le_trans [of 0 "2 ^ 23"])
    obtain n where n: "a = of_int n * 2 powi ulp_exp binary32 a" "0 < n" "n < 2 ^ 24"
      using grid_point [OF grid apos] by auto
    have "(2::rat) powi 23 \<le> a"
      using a23 by simp
    then have "23 \<le> ilog 2 a"
      using apos by (intro ilog2_ge)
    then have u: "0 \<le> ulp_exp binary32 a"
      by (simp add: ulp_exp_def)
    define A where "A = n * 2 ^ nat (ulp_exp binary32 a - 0)"
    have "a / 2 powi 0 = of_int A"
      unfolding A_def using n(1) u by (rule scaled_integer)
    then have aA: "a = of_int A"
      by simp
    have "(of_int A :: rat) < of_int (2 ^ 32)"
      using s32 unfolding aA by simp
    then have A32: "A < 2 ^ 32"
      by (simp only: of_int_less_iff)
    have "(0::rat) < of_int A"
      using apos unfolding aA .
    then have Apos: "0 < A"
      by (simp only: of_int_0_less_iff)
    have half: "a + 1 / 2 = of_int (2 * A + 1) * 2 powi (- 1)"
      unfolding aA by (simp add: field_simps)
    have "round_mag binary64 (a + 1 / 2) = a + 1 / 2"
      using half Apos A32
      by (intro round_mag_representable [where n = "2 * A + 1" and k = "- 1"]) simp_all
    then have "\<lfloor>?r\<rfloor> = \<lfloor>of_int A + (1 / 2 :: rat)\<rfloor>"
      unfolding aA by simp
    also have "\<dots> = A"
      by (intro floor_unique) simp_all
    finally have fl: "of_int \<lfloor>?r\<rfloor> = a"
      unfolding aA by simp
    have "round_mag binary32 a = a"
      using n ulp_exp_ge_min [of binary32 a]
      by (intro round_mag_representable [where n = n and k = "ulp_exp binary32 a"]) simp_all
    with fl show ?thesis
      by simp
  qed
  show "2 ^ 23 \<le> a \<Longrightarrow> of_int \<lfloor>?r\<rfloor> = a"
    using big by simp
  show "round_mag binary32 (of_int \<lfloor>?r\<rfloor>) = of_int \<lfloor>?r\<rfloor>"
  proof (cases "2 ^ 23 \<le> a")
    case True
    then show ?thesis
      using big by simp
  next
    case False
    then have "a + 1 / 2 \<le> of_int (2 ^ 23) + 1 / 2"
      by simp
    then have "?r \<le> of_int (2 ^ 23) + 1 / 2"
      using spos by (intro round64_le_half_int) simp_all
    then have "?r < of_int (2 ^ 23 + 1)"
      by simp
    then have "\<lfloor>?r\<rfloor> < 2 ^ 23 + 1"
      by (simp only: floor_less_iff)
    moreover have "0 \<le> ?r"
      using spos by (intro round_mag_nonneg) simp
    then have "0 \<le> \<lfloor>?r\<rfloor>"
      by simp
    moreover define F where "F = \<lfloor>?r\<rfloor>"
    ultimately have le: "F < 2 ^ 23 + 1" and ge: "0 \<le> F"
      by simp_all
    have "round_mag binary32 (of_int F) = of_int F"
    proof (cases "F = 0")
      case True
      then show ?thesis
        by (simp add: round_mag_def)
    next
      case False
      with ge have "0 < F"
        by simp
      then show ?thesis
        using le by (intro round_mag_representable [where n = F and k = 0]) simp_all
    qed
    then show ?thesis
      by (simp only: F_def)
  qed
qed

lemma iround_Inr_in_range:
  assumes "iround x = Inr n"
  shows "in_int_range (adjusted x)"
proof (cases "adjusted x")
  case (Finite s m)
  then have "0 \<le> m"
    by (rule adjusted_mag_nonneg)
  then show ?thesis
    using assms double_to_int_in_range [of m s] unfolding iround_adjusted Finite
    by (auto split: if_splits)
next
  case (Infinite s)
  with assms show ?thesis
    by (simp add: iround_adjusted double_to_int_def)
next
  case (NaN u)
  with assms show ?thesis
    by (simp add: iround_adjusted double_to_int_def)
qed

lemma iround32_exact_aux:
  assumes fp: "is_fp binary32 (Finite sg a)" and ir: "iround (Finite sg a) = Inr n"
  shows "int_to_float n = Finite (sint n < 0) \<bar>of_int (sint n)\<bar>"
    and "2 ^ 23 \<le> a \<Longrightarrow> int_to_float n = Finite sg a"
proof -
  let ?s = "sg \<and> a \<noteq> 0"
  let ?r = "round_mag binary64 (a + 1 / 2)"
  have a0: "0 \<le> a" and grid: "on_grid binary32 a"
    using fp by simp_all
  have rng: "in_int_range (adjusted (Finite sg a))"
    using ir by (rule iround_Inr_in_range)
  have adj: "adjusted (Finite sg a) = Finite ?s ?r" and r: "?r < 2 ^ 31 + 1"
    using rng fp_round_in_range(1,2) [of binary64 ?s "a + 1 / 2"]
    unfolding adjusted_finite [OF a0] by simp_all
  have r0: "0 \<le> ?r"
    using a0 by (intro round_mag_nonneg) simp
  define F where "F = \<lfloor>?r\<rfloor>"
  have F0: "0 \<le> F"
    using r0 by (simp add: F_def)
  define t where "t = (if ?s then - F else F)"
  have tr: "int_min \<le> t \<and> t \<le> int_max"
    using in_int_range_trunc [OF r0, of ?s] rng unfolding adj t_def F_def by simp
  have "iround (Finite sg a) = Inr (word_of_int t)"
    using double_to_int_in_range [OF r0, of ?s] rng
    unfolding iround_adjusted adj t_def F_def by simp
  then have n: "sint n = t"
    using ir tr by (simp add: sint_in_range)
  have abs: "\<bar>of_int (sint n) :: rat\<bar> = of_int F"
    using F0 unfolding n t_def by simp
  have exact: "round_mag binary32 (of_int F) = of_int F"
    unfolding F_def using grid a0 r by (rule floor_round_half_float(1))
  have "(of_int F :: rat) \<le> ?r"
    unfolding F_def by simp
  also have "?r < 2 ^ 31 + 1"
    by (rule r)
  also have "\<dots> \<le> max_finite binary32"
    by (simp add: max_finite_binary32)
  finally have nomax: "\<not> max_finite binary32 < of_int F"
    by simp
  have "fp_round binary32 (sint n < 0) (of_int F) = Finite (sint n < 0) (of_int F)"
    using exact nomax by (simp add: fp_round_def)
  moreover have "(of_int (sint n) :: rat) < 0 \<longleftrightarrow> sint n < 0"
    by (simp only: of_int_less_0_iff)
  ultimately have conv: "int_to_float n = Finite (sint n < 0) (of_int F)"
    unfolding int_to_float_def fp_of_rat_def abs by (simp only:)
  show "int_to_float n = Finite (sint n < 0) \<bar>of_int (sint n)\<bar>"
    using conv by (simp only: abs)
  show "int_to_float n = Finite sg a" if "2 ^ 23 \<le> a"
  proof -
    have Fa: "of_int F = a"
      unfolding F_def using grid a0 r that by (rule floor_round_half_float(2))
    have "0 < a"
      using that by (simp add: less_le_trans [of 0 "2 ^ 23"])
    then have "(0::rat) < of_int F"
      by (simp only: Fa)
    then have "0 < F"
      by (simp only: of_int_0_less_iff)
    then have "sint n < 0 \<longleftrightarrow> sg"
      using \<open>0 < a\<close> unfolding n t_def by auto
    then show ?thesis
      using conv Fa by simp
  qed
qed

lemma fp_val_of_int: "fp_val (Finite (k < 0) \<bar>of_int k\<bar>) = of_int k"
  by (simp add: abs_if)

lemma iround32_Inr:
  assumes fp: "is_fp binary32 f" and ir: "iround (float_to_double f) = Inr n"
  shows "iround32 f = Inr (Finite (sint n < 0) \<bar>of_int (sint n)\<bar>)"
proof (cases f)
  case (Finite sg a)
  have w: "float_to_double (Finite sg a) = Finite sg a"
    using fp unfolding Finite by (rule float_to_double_exact)
  have "int_to_float n = Finite (sint n < 0) \<bar>of_int (sint n)\<bar>"
    using fp ir unfolding Finite w by (rule iround32_exact_aux(1))
  then show ?thesis
    using ir by (simp add: iround32_def FUNC32_def)
next
  case (Infinite sg)
  with ir show ?thesis
    by (cases sg) (simp_all add: float_to_double_def iround_def fp_sub_def double_to_int_def)
next
  case (NaN u)
  with ir show ?thesis
    by (simp add: float_to_double_def iround_def fp_sub_def double_to_int_def)
qed

text \<open>A \<^verbatim>\<open>float\<close> of magnitude \<open>2^23\<close> or more comes back from \<open>iround32\<close> unchanged.\<close>

lemma iround32_large_identity:
  assumes fp: "is_fp binary32 (Finite sg a)" and big: "2 ^ 23 \<le> a"
    and ir: "iround (float_to_double (Finite sg a)) = Inr n"
  shows "iround32 (Finite sg a) = Inr (Finite sg a)"
proof -
  have w: "float_to_double (Finite sg a) = Finite sg a"
    using fp by (rule float_to_double_exact)
  have "int_to_float n = Finite sg a"
    using fp ir big unfolding w by (rule iround32_exact_aux(2))
  then show ?thesis
    using ir by (simp add: iround32_def FUNC32_def)
qed

text \<open>
  C10.  \<open>iround32\<close> returns a \<^verbatim>\<open>float\<close>: \<open>iround32(f)\<close> is \<open>iround\<close> of the widened \<open>f\<close>
  with the resulting \<^verbatim>\<open>int\<close> converted to \<^verbatim>\<open>float\<close>.  For every \<^verbatim>\<open>float\<close> \<open>f\<close> on which
  \<open>iround\<close> is defined that conversion is exact: the returned \<^verbatim>\<open>float\<close> is the rounded
  integer itself, whatever its magnitude.
\<close>

theorem iround32_returns_exact_float:
  "iround32 f = map_sum id int_to_float (iround (float_to_double f))
   \<and> (is_fp binary32 f \<longrightarrow>
        (\<forall>n. iround (float_to_double f) = Inr n \<longrightarrow>
           iround32 f = Inr (Finite (sint n < 0) \<bar>of_int (sint n)\<bar>)
           \<and> fp_val (Finite (sint n < 0) \<bar>of_int (sint n)\<bar>) = of_int (sint n)))"
proof -
  have "fp_val (Finite (sint n < 0) \<bar>of_int (sint n)\<bar>) = of_int (sint n)" for n :: c_int
    by (rule fp_val_of_int)
  moreover have "iround32 f = map_sum id int_to_float (iround (float_to_double f))"
    by (simp add: iround32_def FUNC32_def)
  ultimately show ?thesis
    using iround32_Inr [of f] by blast
qed

theorem iround32_returns_exact_float_witness:
  "is_fp binary32 (Finite False 16777218)
   \<and> iround (float_to_double (Finite False 16777218)) = Inr 16777218
   \<and> iround32 (Finite False 16777218) = Inr (Finite False 16777218)"
proof -
  have h: "is_fp binary32 (Finite False 16777218)
     \<and> iround (float_to_double (Finite False 16777218)) = Inr 16777218"
    by code_simp
  then have "iround32 (Finite False 16777218)
      = Inr (Finite (sint (16777218 :: c_int) < 0) \<bar>of_int (sint (16777218 :: c_int))\<bar>)"
    using iround32_returns_exact_float [of "Finite False 16777218"] by blast
  then show ?thesis
    using h by simp
qed

text \<open>
  No \<^verbatim>\<open>float\<close> input has a rounded integer beyond \<open>2^24\<close> in magnitude that the returned
  \<^verbatim>\<open>float\<close> fails to represent: a \<^verbatim>\<open>float\<close> of magnitude \<open>2^23\<close> or more is an integer
  already, and comes back unchanged.
\<close>

theorem iround32_inexact_counterexample:
  "\<not> (\<exists>f n y. is_fp binary32 f \<and> iround (float_to_double f) = Inr n \<and> 2 ^ 24 < \<bar>sint n\<bar>
         \<and> iround32 f = Inr y \<and> fp_val y \<noteq> of_int (sint n))"
proof
  assume "\<exists>f n y. is_fp binary32 f \<and> iround (float_to_double f) = Inr n \<and> 2 ^ 24 < \<bar>sint n\<bar>
         \<and> iround32 f = Inr y \<and> fp_val y \<noteq> of_int (sint n)"
  then obtain f n y where fp: "is_fp binary32 f" and ir: "iround (float_to_double f) = Inr n"
    and y: "iround32 f = Inr y" and ne: "fp_val y \<noteq> of_int (sint n)"
    by blast
  have "y = Finite (sint n < 0) \<bar>of_int (sint n)\<bar>"
    using iround32_Inr [OF fp ir] y by simp
  then have "fp_val y = of_int (sint n)"
    by (simp only: fp_val_of_int)
  with ne show False
    by simp
qed

text \<open>
  C7.  \<open>writef32(f)\<close> and \<open>writelnf32(f)\<close> leave the standard output exactly as \<open>writef\<close>
  and \<open>writelnf\<close> do on \<open>f\<close> widened to \<^verbatim>\<open>double\<close>: the widened value is passed on and
  nothing is narrowed.  Widening a \<^verbatim>\<open>float\<close> keeps its value, so the text is the \<^verbatim>\<open>%g\<close>
  conversion of \<open>f\<close> itself.
\<close>

theorem single_precision_writes_forward:
  "writef32 f out = writef (float_to_double f) out
   \<and> writelnf32 f out = writelnf (float_to_double f) out
   \<and> (is_fp binary32 f \<longrightarrow>
        float_to_double f = f
        \<and> writef32 f out = Inr (out @ fmt_g f)
        \<and> writelnf32 f out = Inr (out @ fmt_g f @ ''\<newline>''))"
  by (simp add: writef32_def writelnf32_def FUNC32_def float_to_double_exact
      writef_def writelnf_def printf_def)

theorem single_precision_writes_forward_witness:
  "is_fp binary32 (fp_of_rat binary32 (1 / 10))
   \<and> float_to_double (fp_of_rat binary32 (1 / 10)) = fp_of_rat binary32 (1 / 10)
   \<and> writef32 (fp_of_rat binary32 (1 / 10)) [] = Inr ''0.1''
   \<and> writelnf32 (fp_of_rat binary32 (1 / 10)) [] = Inr ''0.1\<newline>''"
proof -
  have h: "is_fp binary32 (fp_of_rat binary32 (1 / 10))"
    by code_simp
  have g: "fmt_g (fp_of_rat binary32 (1 / 10)) = ''0.1''"
    by code_simp
  have "float_to_double (fp_of_rat binary32 (1 / 10)) = fp_of_rat binary32 (1 / 10)
     \<and> writef32 (fp_of_rat binary32 (1 / 10)) [] = Inr ([] @ fmt_g (fp_of_rat binary32 (1 / 10)))
     \<and> writelnf32 (fp_of_rat binary32 (1 / 10)) []
         = Inr ([] @ fmt_g (fp_of_rat binary32 (1 / 10)) @ ''\<newline>'')"
    using h single_precision_writes_forward [of "fp_of_rat binary32 (1 / 10)" "[]"] by blast
  then show ?thesis
    using h unfolding g by simp
qed

end
